theory Spec2Isabelle
  imports Complex_Main "HOL-Library.AList" "HOL-Library.Sublist"
begin

section \<open>Data model\<close>

text \<open>
  Errors of the Python source are values: every \<open>raise\<close> is an \<open>Inl\<close> branch, named by
  the exception class. Two \<open>ValueError\<close>s occur: the count mismatch of the date rewrite
  (its message interpolates the number of commits and of dates) and the one the VCS
  library raises when the reference HEAD names does not exist (its message names the
  reference). \<open>RuntimeError\<close> carries the message built from the rewrite tool's standard
  error; \<open>GitCommandError\<close> and \<open>OtherError\<close> are what the collaborators (git, the
  hosting API, the regex engine) raise.
\<close>

datatype value_error = CountMismatch nat nat | NoSuchReference string

datatype error =
    InvalidGitRepositoryError
  | ValueError value_error
  | RuntimeError string
  | GitCommandError string
  | OtherError string

text \<open>
  Points in time are seconds since the epoch. The source computes with Python floats
  (\<open>random.random() * time_range\<close>); the model takes these products exactly, over the
  rationals. A commit stores whole seconds, as the \<open>strftime\<close> format of the source does.
\<close>

type_synonym timestamp = rat

record commit =
  hexsha :: string
  author_name :: string
  author_email :: string
  committer_name :: string
  committer_email :: string
  author_date :: int
  committer_date :: int
  message :: string

text \<open>
  A file of the working tree either decodes as UTF-8 text or does not (then only its
  bytes are known). Paths are lists of components, below the repository root.
\<close>

datatype content = Text string | Binary "nat list"

type_synonym path = "string list"

type_synonym filesystem = "(path \<times> content) list"

text \<open>
  The repository as the VCS library shows it: every ref under its full name
  (\<open>refs/heads/...\<close>, \<open>refs/remotes/...\<close>, \<open>refs/tags/...\<close>, \<open>refs/original/...\<close>) with
  the commits reachable from it in log order (most recent first), the refs that are
  annotated tags (they point to a tag object, not to a commit), the branch HEAD names,
  the configured remotes, the scratch files lying in \<open>.git\<close>, and the working tree.
\<close>

record repository =
  refs :: "(string \<times> commit list) list"
  annotated :: "string list"
  head :: string
  remotes :: "(string \<times> string) list"
  scratch :: "string list"
  worktree :: filesystem

definition head_ref :: "repository \<Rightarrow> string" where
  "head_ref r = ''refs/heads/'' @ head r"

text \<open>
  \<open>repo.iter_commits()\<close> resolves the commit of HEAD first and raises \<open>ValueError\<close> when
  the branch HEAD names does not exist yet, as in a repository without commits; a ref
  that exists reaches at least its own commit.
\<close>

definition iter_commits :: "repository \<Rightarrow> error + commit list" where
  "iter_commits r =
     (case map_of (refs r) (head_ref r) of
        None \<Rightarrow> Inl (ValueError (NoSuchReference (head_ref r)))
      | Some [] \<Rightarrow> Inl (ValueError (NoSuchReference (head_ref r)))
      | Some (c # cs) \<Rightarrow> Inr (c # cs))"

text \<open>\<open>repo.branches\<close>: the short names of the refs under \<open>refs/heads/\<close>.\<close>

definition branches :: "repository \<Rightarrow> string list" where
  "branches r =
     map (drop (length ''refs/heads/'')) (filter (prefix ''refs/heads/'') (map fst (refs r)))"

section \<open>CommitModifier\<close>

subsection \<open>randomize\_commit\_dates\<close>

text \<open>
  \<open>rng k\<close> is the k-th value that \<open>random.random()\<close> returns from the call on; \<open>now\<close>
  is the clock. A repository path that does not open is \<open>None\<close>.
\<close>

definition days :: "int \<Rightarrow> rat" where
  "days n = of_int (n * 86400)"

definition randomize_commit_dates ::
  "(nat \<Rightarrow> rat) \<Rightarrow> timestamp \<Rightarrow> repository option \<Rightarrow> timestamp option \<Rightarrow> timestamp option
     \<Rightarrow> error + timestamp list" where
  "randomize_commit_dates rng now repo_at_path start_date end_date =
     (case repo_at_path of
        None \<Rightarrow> Inl InvalidGitRepositoryError
      | Some repo \<Rightarrow>
          let start_date = (case start_date of None \<Rightarrow> now - days 365 | Some s \<Rightarrow> s);
              end_date = (case end_date of None \<Rightarrow> now | Some e \<Rightarrow> e)
          in case iter_commits repo of
               Inl e \<Rightarrow> Inl e
             | Inr commits \<Rightarrow>
                 let num_commits = length commits;
                     time_range = end_date - start_date;
                     random_seconds = map (\<lambda>k. rng k * time_range) [0..<num_commits];
                     random_seconds = rev (sort random_seconds);
                     random_dates = map (\<lambda>sec. start_date + sec) random_seconds
                 in Inr random_dates)"

subsection \<open>update\_commit\_metadata and \_update\_commit\_dates\<close>

text \<open>
  The external rewrite tool, \<open>git filter-branch -f --env-filter F -- --all\<close>, as its
  script works:
  \<^item> with \<open>-f\<close> it first deletes the backup refs under \<open>refs/original/\<close>;
  \<^item> the revision arguments select the refs to rewrite: \<open>--all\<close> every ref, none only
    the branch of HEAD;
  \<^item> it runs the environment filter \<open>F\<close> on every commit reachable from a selected ref
    and records the commit it yields under the id git computes for it (\<open>new_id\<close>, not
    constrained here);
  \<^item> a selected ref whose commits the filter leaves as they are is reported unchanged
    and kept; any other selected ref is moved to the rewritten commits, unless it is an
    annotated tag (no \<open>--tag-name-filter\<close> is given, so the tag stays where it was), and
    its old commits are saved under \<open>refs/original/\<close> followed by the ref's name.
  Whether a run exits with a non-zero status, and its standard error then, is given per
  run: one for the identity rewrite, one for the date rewrite. A failed run is taken to
  leave the refs as they were.
\<close>

record git_tool =
  author_rewrite_stderr :: "string option"
  dates_rewrite_stderr :: "string option"
  new_id :: "commit \<Rightarrow> string"

datatype rev_selection = AllRefs | HeadOnly

definition backup_name :: "string \<Rightarrow> string" where
  "backup_name name = ''refs/original/'' @ name"

definition is_backup :: "string \<Rightarrow> bool" where
  "is_backup name = prefix ''refs/original/'' name"

definition rewrite_commit :: "(commit \<Rightarrow> string) \<Rightarrow> (commit \<Rightarrow> commit) \<Rightarrow> commit \<Rightarrow> commit" where
  "rewrite_commit mk_id f c = (let c' = f c in c'\<lparr>hexsha := mk_id c'\<rparr>)"

definition selected :: "rev_selection \<Rightarrow> repository \<Rightarrow> string \<Rightarrow> bool" where
  "selected revs r name = (case revs of AllRefs \<Rightarrow> True | HeadOnly \<Rightarrow> name = head_ref r)"

definition filter_branch ::
  "(commit \<Rightarrow> string) \<Rightarrow> (commit \<Rightarrow> commit) \<Rightarrow> rev_selection \<Rightarrow> repository \<Rightarrow> repository" where
  "filter_branch mk_id f revs r =
     (let kept = filter (\<lambda>(name, cs). \<not> is_backup name) (refs r);
          rewritten = (\<lambda>(name, cs). selected revs r name \<and> map f cs \<noteq> cs);
          moved = map (\<lambda>(name, cs).
                    if rewritten (name, cs) \<and> name \<notin> set (annotated r)
                    then (name, map (rewrite_commit mk_id f) cs)
                    else (name, cs)) kept;
          backups = map (\<lambda>(name, cs). (backup_name name, cs)) (filter rewritten kept)
      in r\<lparr>refs := moved @ backups\<rparr>)"

text \<open>The commits a ref that is kept reaches after a run: the rewritten ones when it is moved.\<close>

definition moved_ref ::
  "(commit \<Rightarrow> string) \<Rightarrow> (commit \<Rightarrow> commit) \<Rightarrow> rev_selection \<Rightarrow> repository
     \<Rightarrow> string \<Rightarrow> commit list \<Rightarrow> commit list" where
  "moved_ref mk_id f revs r name cs =
     (if selected revs r name \<and> map f cs \<noteq> cs \<and> name \<notin> set (annotated r)
      then map (rewrite_commit mk_id f) cs else cs)"

text \<open>The shell text of \<open>author_filter\<close>, as a function on the commit's environment.\<close>

definition author_filter :: "string \<Rightarrow> string \<Rightarrow> commit \<Rightarrow> commit" where
  "author_filter new_author new_email c =
     (if author_name c \<noteq> new_author \<or> author_email c \<noteq> new_email
      then c\<lparr>author_name := new_author, author_email := new_email,
             committer_name := new_author, committer_email := new_email\<rparr>
      else c)"

text \<open>
  \<open>change_dates.sh\<close>: the first line of the date map whose key is a prefix of the commit
  id sets both dates. \<open>strftime\<close> with \<open>%Y-%m-%d %H:%M:%S\<close> keeps whole seconds.
\<close>

definition strftime :: "timestamp \<Rightarrow> int" where
  "strftime t = \<lfloor>t\<rfloor>"

definition change_dates :: "(string \<times> int) list \<Rightarrow> commit \<Rightarrow> commit" where
  "change_dates date_map c =
     (case find (\<lambda>(sha, date). prefix sha (hexsha c)) date_map of
        None \<Rightarrow> c
      | Some (sha, date) \<Rightarrow> c\<lparr>author_date := date, committer_date := date\<rparr>)"

text \<open>
  \<open>date_map[commit.hexsha[:7]] = ...\<close> over \<open>zip(commits, new_dates)\<close>: a Python dict keeps
  the position of a key's first insertion and the value of its last.
\<close>

definition build_date_map :: "commit list \<Rightarrow> timestamp list \<Rightarrow> (string \<times> int) list" where
  "build_date_map commits new_dates =
     foldl (\<lambda>m (c, d). AList.update (take 7 (hexsha c)) (strftime d) m) [] (zip commits new_dates)"

definition write_file :: "string \<Rightarrow> string list \<Rightarrow> string list" where
  "write_file name files = (if name \<in> set files then files else files @ [name])"

definition os_remove :: "string \<Rightarrow> string list \<Rightarrow> string list" where
  "os_remove name files = removeAll name files"

definition update_commit_dates ::
  "git_tool \<Rightarrow> timestamp list \<Rightarrow> repository \<Rightarrow> (error + bool) \<times> repository" where
  "update_commit_dates tool new_dates r =
     (case iter_commits r of
        Inl e \<Rightarrow> (Inl e, r)
      | Inr commits \<Rightarrow>
          if length commits \<noteq> length new_dates
          then (Inl (ValueError (CountMismatch (length commits) (length new_dates))), r)
          else
            let date_map = build_date_map commits new_dates;
                r = r\<lparr>scratch := write_file ''date_map.txt'' (scratch r)\<rparr>;
                r = r\<lparr>scratch := write_file ''change_dates.sh'' (scratch r)\<rparr>
            in case dates_rewrite_stderr tool of
                 Some stderr \<Rightarrow>
                   (Inl (RuntimeError (''Error updating commit dates: '' @ stderr)), r)
               | None \<Rightarrow>
                   let r = filter_branch (new_id tool) (change_dates date_map) AllRefs r;
                       r = r\<lparr>scratch := os_remove ''date_map.txt'' (scratch r)\<rparr>;
                       r = r\<lparr>scratch := os_remove ''change_dates.sh'' (scratch r)\<rparr>
                   in (Inr True, r))"

text \<open>
  \<open>update_commit_metadata\<close>: the identity rewrite runs first, when both the name and the
  e-mail are non-empty; the date rewrite follows when \<open>new_dates\<close> is a non-empty list.
\<close>

definition run_author_filter ::
  "git_tool \<Rightarrow> string \<Rightarrow> string \<Rightarrow> repository \<Rightarrow> error + repository" where
  "run_author_filter tool new_author new_email r =
     (if new_author \<noteq> [] \<and> new_email \<noteq> []
      then (case author_rewrite_stderr tool of
              Some stderr \<Rightarrow> Inl (RuntimeError (''Error updating commit metadata: '' @ stderr))
            | None \<Rightarrow>
                Inr (filter_branch (new_id tool) (author_filter new_author new_email) AllRefs r))
      else Inr r)"

definition update_commit_metadata ::
  "git_tool \<Rightarrow> string \<Rightarrow> string \<Rightarrow> timestamp list option \<Rightarrow> repository
     \<Rightarrow> (error + bool) \<times> repository" where
  "update_commit_metadata tool new_author new_email new_dates r =
     (case run_author_filter tool new_author new_email r of
        Inl e \<Rightarrow> (Inl e, r)
      | Inr r \<Rightarrow>
          (case new_dates of
             None \<Rightarrow> (Inr True, r)
           | Some ds \<Rightarrow>
               if ds \<noteq> []
               then (case update_commit_dates tool ds r of
                       (Inl e, r) \<Rightarrow> (Inl e, r)
                     | (Inr _, r) \<Rightarrow> (Inr True, r))
               else (Inr True, r)))"

section \<open>BranchRemoteManager\<close>

text \<open>
  \<open>rename_branch\<close> reports a missing source branch and a taken target name by returning
  \<open>False\<close> after logging an \<open>ERROR\<close> event that names the cause; only the git command
  itself can raise. The model returns the result, the events logged by the call (event
  type and message) and the repository. \<open>git_branch_m old new\<close> is the standard error
  of \<open>git branch -m\<close> when it fails.
\<close>

type_synonym log_entry = "string \<times> string"

definition rename_branch ::
  "(string \<Rightarrow> string \<Rightarrow> string option) \<Rightarrow> string \<Rightarrow> string \<Rightarrow> repository
     \<Rightarrow> (error + bool) \<times> log_entry list \<times> repository" where
  "rename_branch git_branch_m old_name new_name r =
     (if old_name \<notin> set (branches r)
      then (Inr False, [(''ERROR'', ''Branch '' @ old_name @ '' does not exist'')], r)
      else if new_name \<in> set (branches r)
      then (Inr False, [(''ERROR'', ''Branch '' @ new_name @ '' already exists'')], r)
      else (case git_branch_m old_name new_name of
              Some stderr \<Rightarrow>
                (Inl (GitCommandError stderr),
                 [(''ERROR'', ''Failed to rename branch: '' @ stderr)], r)
            | None \<Rightarrow>
                (Inr True,
                 [(''INFO'', ''Renamed branch from '' @ old_name @ '' to '' @ new_name)],
                 r\<lparr>refs := map (\<lambda>(name, cs).
                              (if name = ''refs/heads/'' @ old_name
                               then ''refs/heads/'' @ new_name else name, cs)) (refs r),
                   head := (if head r = old_name then new_name else head r)\<rparr>)))"

section \<open>FileProcessor\<close>

text \<open>
  The regular-expression engine is Python's \<open>re\<close>, a parameter of the model:
  \<open>pattern_error p\<close> is the \<open>re.error\<close> raised when \<open>p\<close> does not compile,
  \<open>template_error p repl\<close> the one raised when \<open>repl\<close> is no valid replacement template
  for \<open>p\<close>, \<open>re_search p s\<close> whether \<open>p\<close> matches somewhere in \<open>s\<close>, and
  \<open>re_sub p repl s\<close> the text with every match replaced.
\<close>

record re_engine =
  pattern_error :: "string \<Rightarrow> error option"
  template_error :: "string \<Rightarrow> string \<Rightarrow> error option"
  re_search :: "string \<Rightarrow> string \<Rightarrow> bool"
  re_sub :: "string \<Rightarrow> string \<Rightarrow> string \<Rightarrow> string"

text \<open>The loop over the patterns: the content and the flag \<open>modifications_made\<close>.\<close>

fun replace_patterns ::
  "re_engine \<Rightarrow> string list \<Rightarrow> string \<Rightarrow> string \<Rightarrow> bool \<Rightarrow> error + string \<times> bool" where
  "replace_patterns re [] replacement content modifications_made =
     Inr (content, modifications_made)"
| "replace_patterns re (pattern # patterns) replacement content modifications_made =
     (case pattern_error re pattern of
        Some e \<Rightarrow> Inl e
      | None \<Rightarrow>
          if re_search re pattern content
          then (case template_error re pattern replacement of
                  Some e \<Rightarrow> Inl e
                | None \<Rightarrow>
                    replace_patterns re patterns replacement
                      (re_sub re pattern replacement content) True)
          else replace_patterns re patterns replacement content modifications_made)"

text \<open>
  \<open>scan_and_replace\<close>: a path that is no file and a file that does not decode are skipped
  with \<open>False\<close>; the file is written only when a pattern matched.
\<close>

definition scan_and_replace ::
  "re_engine \<Rightarrow> path \<Rightarrow> string list \<Rightarrow> string \<Rightarrow> filesystem \<Rightarrow> (error + bool) \<times> filesystem" where
  "scan_and_replace re file_path patterns replacement fs =
     (case map_of fs file_path of
        None \<Rightarrow> (Inr False, fs)
      | Some (Binary bytes) \<Rightarrow> (Inr False, fs)
      | Some (Text content) \<Rightarrow>
          (case replace_patterns re patterns replacement content False of
             Inl e \<Rightarrow> (Inl e, fs)
           | Inr (content, modifications_made) \<Rightarrow>
               if modifications_made
               then (Inr True, AList.update file_path (Text content) fs)
               else (Inr False, fs)))"

text \<open>
  \<open>os.walk\<close> with every directory named \<open>.git\<close> pruned: the files none of whose
  directories is called \<open>.git\<close>, in the order the file system lists them.
\<close>

definition os_walk :: "filesystem \<Rightarrow> path list" where
  "os_walk fs = map fst (filter (\<lambda>(p, c). ''.git'' \<notin> set (butlast p)) fs)"

fun update_files ::
  "re_engine \<Rightarrow> string list \<Rightarrow> string \<Rightarrow> path list \<Rightarrow> filesystem \<Rightarrow> nat
     \<Rightarrow> (error + nat) \<times> filesystem" where
  "update_files re patterns replacement [] fs count = (Inr count, fs)"
| "update_files re patterns replacement (file_path # files) fs count =
     (case scan_and_replace re file_path patterns replacement fs of
        (Inl e, fs) \<Rightarrow> (Inl e, fs)
      | (Inr modified, fs) \<Rightarrow>
          update_files re patterns replacement files fs (if modified then count + 1 else count))"

definition update_all_files ::
  "re_engine \<Rightarrow> string list \<Rightarrow> string \<Rightarrow> filesystem \<Rightarrow> (error + nat) \<times> filesystem" where
  "update_all_files re patterns replacement fs =
     update_files re patterns replacement (os_walk fs) fs 0"

text \<open>Some pattern matches the text; the file at a path is text that some pattern matches.\<close>

definition matches_any :: "re_engine \<Rightarrow> string list \<Rightarrow> string \<Rightarrow> bool" where
  "matches_any re patterns content = list_ex (\<lambda>pattern. re_search re pattern content) patterns"

definition file_matches :: "re_engine \<Rightarrow> string list \<Rightarrow> filesystem \<Rightarrow> path \<Rightarrow> bool" where
  "file_matches re patterns fs p =
     (case map_of fs p of Some (Text content) \<Rightarrow> matches_any re patterns content | _ \<Rightarrow> False)"

definition valid_patterns :: "re_engine \<Rightarrow> string list \<Rightarrow> string \<Rightarrow> bool" where
  "valid_patterns re patterns replacement =
     list_all (\<lambda>p. pattern_error re p = None \<and> template_error re p replacement = None) patterns"

subsection \<open>clean\_sensitive\_data\<close>

text \<open>
  \<open>git add .\<close> and \<open>git commit -m\<close> run only when a file was modified; \<open>git_commit\<close> is
  the collaborator: the commit it creates on the current branch, or its error.
\<close>

definition add_commit :: "commit \<Rightarrow> repository \<Rightarrow> repository" where
  "add_commit c r =
     r\<lparr>refs := AList.update (head_ref r)
                 (c # (case map_of (refs r) (head_ref r) of None \<Rightarrow> [] | Some cs \<Rightarrow> cs)) (refs r)\<rparr>"

definition clean_sensitive_data ::
  "re_engine \<Rightarrow> (repository \<Rightarrow> string \<Rightarrow> error + commit) \<Rightarrow> string list \<Rightarrow> string \<Rightarrow> repository
     \<Rightarrow> (error + bool) \<times> repository" where
  "clean_sensitive_data re git_commit patterns replacement r =
     (case update_all_files re patterns replacement (worktree r) of
        (Inl e, fs) \<Rightarrow> (Inl e, r\<lparr>worktree := fs\<rparr>)
      | (Inr files_modified, fs) \<Rightarrow>
          let r = r\<lparr>worktree := fs\<rparr> in
          if files_modified > 0
          then (case git_commit r ''Clean sensitive data'' of
                  Inl e \<Rightarrow> (Inl e, r)
                | Inr c \<Rightarrow> (Inr True, add_commit c r))
          else (Inr True, r))"

subsection \<open>Python's re on literal patterns\<close>

text \<open>
  For a pattern without metacharacters and a replacement without backslashes,
  \<open>re.search\<close> is a case-sensitive substring test and \<open>re.sub\<close> replaces the
  non-overlapping occurrences from left to right (for the empty pattern: before every
  character and at the end). \<open>sub_from\<close> carries the number of characters of the
  current match still to skip.
\<close>

primrec contains :: "string \<Rightarrow> string \<Rightarrow> bool" where
  "contains p [] = (p = [])"
| "contains p (c # cs) = (prefix p (c # cs) \<or> contains p cs)"

fun sub_from :: "string \<Rightarrow> string \<Rightarrow> nat \<Rightarrow> string \<Rightarrow> string" where
  "sub_from p repl k [] = (if k = 0 \<and> p = [] then repl else [])"
| "sub_from p repl (Suc k) (c # cs) = sub_from p repl k cs"
| "sub_from p repl 0 (c # cs) =
     (if p = [] then repl @ c # sub_from p repl 0 cs
      else if prefix p (c # cs) then repl @ sub_from p repl (length p - 1) cs
      else c # sub_from p repl 0 cs)"

definition literal_re :: re_engine where
  "literal_re =
     \<lparr>pattern_error = (\<lambda>p. None), template_error = (\<lambda>p repl. None),
      re_search = contains, re_sub = (\<lambda>p repl s. sub_from p repl 0 s)\<rparr>"

section \<open>BackendController\<close>

text \<open>
  The collaborators of the controller: cloning, the rewrite tool, the random source and
  the clock, the regex engine, \<open>git commit\<close>, \<open>git branch -m\<close>, the hosting API,
  the exception that escapes a push (a \<open>GitCommandError\<close> is caught there and only
  logged), \<open>str.format\<close> on the name template, and the error of \<open>shutil.rmtree\<close>.
\<close>

record environment =
  git_clone_from :: "string \<Rightarrow> error + repository"
  rewrite_tool :: git_tool
  random_source :: "nat \<Rightarrow> rat"
  clock :: timestamp
  regex :: re_engine
  commit_tool :: "repository \<Rightarrow> string \<Rightarrow> error + commit"
  branch_m :: "string \<Rightarrow> string \<Rightarrow> string option"
  hosting_create_repo :: "string \<Rightarrow> string \<Rightarrow> error + string"
  push_raises :: "repository \<Rightarrow> error option"
  str_format :: "string \<Rightarrow> string \<Rightarrow> nat \<Rightarrow> error + string"
  rmtree_error :: "nat \<Rightarrow> error option"

text \<open>
  The operations dictionary. Only the truth value of its string and list entries is
  tested, so an absent entry, \<open>None\<close> and the empty value are all the empty list here.
\<close>

record operations =
  op_new_author :: string
  op_new_email :: string
  op_randomize_dates :: bool
  op_start_date :: "timestamp option"
  op_end_date :: "timestamp option"
  op_branch_mapping :: "(string \<times> string) list"
  op_patterns :: "string list"
  op_replacement :: string
  op_remote_url :: string
  op_token :: string
  op_repo_name_template :: string

record batch_result =
  repo_url :: string
  success :: bool
  failure :: "error option"
  operations_completed :: "string list"

text \<open>
  The controller with the part of the machine it acts on: the repository handler and its
  temporary directory, the working copy the modules were opened on, the temporary
  directories on disk, the next name \<open>mkdtemp\<close> hands out, and the calls made to
  \<open>shutil.rmtree\<close>.
\<close>

record handler =
  temp_dir :: "nat option"

record controller =
  repo_handler :: "handler option"
  working_copy :: "repository option"
  disk :: "nat list"
  next_tmp :: nat
  rmtree_calls :: "nat list"
  batch_mode :: bool
  batch_results :: "batch_result list"

text \<open>
  \<open>initialize\<close> makes a new handler, which takes a temporary directory from \<open>mkdtemp\<close>
  and clones into it; the modules are then opened on the clone. \<open>fetch_repo_info\<close> only
  reads the clone and is left out.
\<close>

definition initialize :: "environment \<Rightarrow> string \<Rightarrow> controller \<Rightarrow> (error + bool) \<times> controller" where
  "initialize env url c =
     (let c = c\<lparr>repo_handler := Some \<lparr>temp_dir = None\<rparr>\<rparr>;
          t = next_tmp c;
          c = c\<lparr>disk := disk c @ [t], next_tmp := t + 1,
                repo_handler := Some \<lparr>temp_dir = Some t\<rparr>\<rparr>
      in case git_clone_from env url of
           Inl e \<Rightarrow> (Inl e, c)
         | Inr r \<Rightarrow> (Inr True, c\<lparr>working_copy := Some r\<rparr>))"

definition rewrite_history ::
  "environment \<Rightarrow> string \<Rightarrow> string \<Rightarrow> bool \<Rightarrow> timestamp option \<Rightarrow> timestamp option \<Rightarrow> repository
     \<Rightarrow> (error + bool) \<times> repository" where
  "rewrite_history env new_author new_email randomize_dates start_date end_date r =
     (case (if randomize_dates
            then map_sum id Some
                   (randomize_commit_dates (random_source env) (clock env) (Some r) start_date end_date)
            else Inr None) of
        Inl e \<Rightarrow> (Inl e, r)
      | Inr new_dates \<Rightarrow> update_commit_metadata (rewrite_tool env) new_author new_email new_dates r)"

fun rename_branches ::
  "environment \<Rightarrow> (string \<times> string) list \<Rightarrow> repository \<Rightarrow> (error + bool) \<times> repository" where
  "rename_branches env [] r = (Inr True, r)"
| "rename_branches env ((old_name, new_name) # branch_mapping) r =
     (if old_name \<noteq> new_name
      then (case rename_branch (branch_m env) old_name new_name r of
              (Inl e, events, r) \<Rightarrow> (Inl e, r)
            | (Inr renamed, events, r) \<Rightarrow> rename_branches env branch_mapping r)
      else rename_branches env branch_mapping r)"

text \<open>
  \<open>add_remote\<close> creates the remote or, when the name is taken, sets its URL;
  \<open>setup_remote_and_push\<close> provisions a remote when only a token and a name are given.
\<close>

definition add_remote :: "string \<Rightarrow> string \<Rightarrow> repository \<Rightarrow> repository" where
  "add_remote remote_name remote_url r = r\<lparr>remotes := AList.update remote_name remote_url (remotes r)\<rparr>"

definition setup_remote_and_push ::
  "environment \<Rightarrow> string \<Rightarrow> string \<Rightarrow> string \<Rightarrow> repository \<Rightarrow> (error + bool) \<times> repository" where
  "setup_remote_and_push env remote_url token repo_name r =
     (case (if token \<noteq> [] \<and> repo_name \<noteq> [] \<and> remote_url = []
            then hosting_create_repo env repo_name token
            else Inr remote_url) of
        Inl e \<Rightarrow> (Inl e, r)
      | Inr remote_url \<Rightarrow>
          if remote_url = [] then (Inr False, r)
          else
            let r = add_remote ''origin'' remote_url r
            in case push_raises env r of
                 Some e \<Rightarrow> (Inl e, r)
               | None \<Rightarrow> (Inr True, r))"

text \<open>
  \<open>cleanup\<close>: the handler removes its temporary directory when it has one that exists;
  an exception of the removal is caught and logged.
\<close>

definition cleanup :: "environment \<Rightarrow> controller \<Rightarrow> controller" where
  "cleanup env c =
     (case repo_handler c of
        None \<Rightarrow> c
      | Some h \<Rightarrow>
          (case temp_dir h of
             None \<Rightarrow> c
           | Some t \<Rightarrow>
               if t \<in> set (disk c)
               then (let c = c\<lparr>rmtree_calls := rmtree_calls c @ [t]\<rparr>
                     in case rmtree_error env t of
                          Some e \<Rightarrow> c
                        | None \<Rightarrow> c\<lparr>disk := removeAll t (disk c)\<rparr>)
               else c))"

text \<open>
  The body of the \<open>try\<close> of one work item. A module call acts on the working copy
  (\<open>on_repo\<close>; without one the module is \<open>None\<close> and the call raises); \<open>run_step\<close>
  runs a wanted step unless an earlier one raised, and appends its name to
  \<open>operations_completed\<close> when it returns.
\<close>

type_synonym progress = "(error + unit) \<times> string list \<times> controller"

definition on_repo ::
  "(repository \<Rightarrow> (error + 'a) \<times> repository) \<Rightarrow> controller \<Rightarrow> (error + 'a) \<times> controller" where
  "on_repo f c =
     (case working_copy c of
        None \<Rightarrow> (Inl (OtherError ''no working copy''), c)
      | Some r \<Rightarrow> (case f r of (res, r) \<Rightarrow> (res, c\<lparr>working_copy := Some r\<rparr>)))"

definition run_step ::
  "bool \<Rightarrow> string \<Rightarrow> (controller \<Rightarrow> (error + 'a) \<times> controller) \<Rightarrow> progress \<Rightarrow> progress" where
  "run_step wanted name step p =
     (case p of
        (Inl e, completed, c) \<Rightarrow> (Inl e, completed, c)
      | (Inr u, completed, c) \<Rightarrow>
          if wanted
          then (case step c of
                  (Inl e, c) \<Rightarrow> (Inl e, completed, c)
                | (Inr v, c) \<Rightarrow> (Inr (), completed @ [name], c))
          else (Inr (), completed, c))"

definition repo_name_of :: "string \<Rightarrow> string" where
  "repo_name_of url =
     (let repo_name = rev (takeWhile (\<lambda>ch. ch \<noteq> CHR ''/'') (rev url))
      in if suffix ''.git'' repo_name then take (length repo_name - 4) repo_name else repo_name)"

definition item_body :: "environment \<Rightarrow> operations \<Rightarrow> nat \<Rightarrow> string \<Rightarrow> controller \<Rightarrow> progress" where
  "item_body env ops i url c =
     (let p = (case initialize env url c of
                 (Inl e, c) \<Rightarrow> (Inl e, [], c)
               | (Inr ok, c) \<Rightarrow> (Inr (), [], c));
          repo_name = repo_name_of url;
          p = run_step (op_new_author ops \<noteq> [] \<and> op_new_email ops \<noteq> []) ''rewrite_history''
                (on_repo (rewrite_history env (op_new_author ops) (op_new_email ops)
                   (op_randomize_dates ops) (op_start_date ops) (op_end_date ops))) p;
          p = run_step (op_branch_mapping ops \<noteq> []) ''rename_branches''
                (on_repo (rename_branches env (op_branch_mapping ops))) p;
          p = run_step (op_patterns ops \<noteq> [] \<and> op_replacement ops \<noteq> []) ''clean_sensitive_data''
                (on_repo (clean_sensitive_data (regex env) (commit_tool env)
                   (op_patterns ops) (op_replacement ops))) p
      in case p of
           (Inl e, completed, c) \<Rightarrow> (Inl e, completed, c)
         | (Inr u, completed, c) \<Rightarrow>
             (case (if op_repo_name_template ops \<noteq> []
                    then str_format env (op_repo_name_template ops) repo_name (i + 1)
                    else Inr []) of
                Inl e \<Rightarrow> (Inl e, completed, c)
              | Inr repo_name_for_remote \<Rightarrow>
                  run_step (op_remote_url ops \<noteq> [] \<or> (op_token ops \<noteq> [] \<and> repo_name_for_remote \<noteq> []))
                    ''setup_remote_and_push''
                    (on_repo (setup_remote_and_push env (op_remote_url ops) (op_token ops)
                       repo_name_for_remote))
                    (Inr (), completed, c)))"

text \<open>
  One iteration of the loop of \<open>process_batch\<close>: the \<open>try\<close> body, the \<open>except\<close> that
  records the error, and the \<open>finally\<close> that cleans up and appends the result.
\<close>

definition result_of :: "string \<Rightarrow> error + unit \<Rightarrow> string list \<Rightarrow> batch_result" where
  "result_of url outcome completed =
     (case outcome of
        Inl e \<Rightarrow> \<lparr>repo_url = url, success = False, failure = Some e,
                  operations_completed = completed\<rparr>
      | Inr u \<Rightarrow> \<lparr>repo_url = url, success = True, failure = None,
                  operations_completed = completed\<rparr>)"

definition process_item :: "environment \<Rightarrow> operations \<Rightarrow> nat \<Rightarrow> string \<Rightarrow> controller \<Rightarrow> controller" where
  "process_item env ops i url c =
     (case item_body env ops i url c of
        (outcome, completed, c) \<Rightarrow>
          let result = result_of url outcome completed;
              c = cleanup env c
          in c\<lparr>batch_results := batch_results c @ [result]\<rparr>)"

fun process_items ::
  "environment \<Rightarrow> operations \<Rightarrow> (nat \<times> string) list \<Rightarrow> controller \<Rightarrow> controller" where
  "process_items env ops [] c = c"
| "process_items env ops ((i, url) # rest) c = process_items env ops rest (process_item env ops i url c)"

definition process_batch ::
  "environment \<Rightarrow> operations \<Rightarrow> string list \<Rightarrow> controller \<Rightarrow> batch_result list \<times> controller" where
  "process_batch env ops repo_urls c =
     (let c = c\<lparr>batch_mode := True, batch_results := []\<rparr>;
          c = process_items env ops (enumerate 0 repo_urls) c
      in (batch_results c, c))"

text \<open>A controller as its constructor leaves it, and one item processed on it alone.\<close>

definition new_controller :: controller where
  "new_controller =
     \<lparr>repo_handler = None, working_copy = None, disk = [], next_tmp = 0, rmtree_calls = [],
      batch_mode = False, batch_results = []\<rparr>"

definition item_alone :: "environment \<Rightarrow> operations \<Rightarrow> nat \<times> string \<Rightarrow> batch_result" where
  "item_alone env ops item =
     (case item_body env ops (fst item) (snd item) new_controller of
        (outcome, completed, c) \<Rightarrow> result_of (snd item) outcome completed)"

text \<open>What \<open>initialize\<close> does to the controller before it clones.\<close>

definition with_temp_dir :: "controller \<Rightarrow> controller" where
  "with_temp_dir c =
     c\<lparr>disk := disk c @ [next_tmp c], next_tmp := next_tmp c + 1,
       repo_handler := Some \<lparr>temp_dir = Some (next_tmp c)\<rparr>\<rparr>"


section \<open>Concrete inputs\<close>

text \<open>Small repositories and inputs on which the definitions are evaluated.\<close>

definition jane :: commit where
  "jane = \<lparr>hexsha = ''abcdef0123'', author_name = ''Jane'', author_email = ''jane@x.com'',
     committer_name = ''Jane'', committer_email = ''jane@x.com'',
     author_date = 100, committer_date = 100, message = ''first''\<rparr>"

definition two_commits :: repository where
  "two_commits =
     \<lparr>refs = [(''refs/heads/main'', [jane\<lparr>hexsha := ''1234567890'', message := ''second''\<rparr>, jane])],
      annotated = [], head = ''main'', remotes = [], scratch = [], worktree = []\<rparr>"

definition no_commits :: repository where
  "no_commits =
     \<lparr>refs = [], annotated = [], head = ''main'', remotes = [], scratch = [], worktree = []\<rparr>"


definition harmonic :: "nat \<Rightarrow> rat" where
  "harmonic k = 1 / (of_nat k + 2)"

definition sha_of :: "commit \<Rightarrow> string" where
  "sha_of c = ''f00d'' @ author_name c @ hexsha c"

definition tool_ok :: git_tool where
  "tool_ok = \<lparr>author_rewrite_stderr = None, dates_rewrite_stderr = None, new_id = sha_of\<rparr>"

definition tool_dates_fail :: git_tool where
  "tool_dates_fail =
     \<lparr>author_rewrite_stderr = None, dates_rewrite_stderr = Some ''fatal: bad revision'',
      new_id = sha_of\<rparr>"

definition two_branches :: repository where
  "two_branches =
     \<lparr>refs = [(''refs/heads/main'', [jane]),
              (''refs/heads/dev'', [jane\<lparr>hexsha := ''1234567890''\<rparr>, jane])],
      annotated = [], head = ''main'', remotes = [], scratch = [], worktree = []\<rparr>"

definition notice_tree :: filesystem where
  "notice_tree =
     [([''NOTICE''], Text ''Copyright 2020 Jane Doe''),
      ([''logo.png''], Binary [137, 80, 78, 71, 255]),
      ([''.git'', ''description''], Text ''copyright''),
      ([''docs'', ''credits.txt''], Text ''written by the author'')]"

definition commit_as_jane :: "repository \<Rightarrow> string \<Rightarrow> error + commit" where
  "commit_as_jane r msg =
     Inr (jane\<lparr>hexsha := ''c0ffee'' @ concat (map hexsha (concat (map snd (refs r)))),
               message := msg\<rparr>)"

definition redacted_tree :: filesystem where
  "redacted_tree = snd (update_all_files literal_re [''copyright'', ''author''] ''[REDACTED]'' notice_tree)"

definition three_hosts :: environment where
  "three_hosts =
     \<lparr>git_clone_from = (\<lambda>url. if url = ''https://host/gone.git''
                              then Inl (GitCommandError ''repository not found'')
                              else Inr (two_commits\<lparr>worktree := notice_tree\<rparr>)),
      rewrite_tool = tool_ok, random_source = harmonic, clock = 1000, regex = literal_re,
      commit_tool = commit_as_jane, branch_m = (\<lambda>a b. None),
      hosting_create_repo = (\<lambda>name token. Inr (''https://host/'' @ name)),
      push_raises = (\<lambda>r. None), str_format = (\<lambda>template name i. Inr (name @ ''-rewritten'')),
      rmtree_error = (\<lambda>t. None)\<rparr>"

definition scrub_and_sign :: operations where
  "scrub_and_sign =
     \<lparr>op_new_author = ''A'', op_new_email = ''a@x.com'', op_randomize_dates = False,
      op_start_date = None, op_end_date = None, op_branch_mapping = [(''main'', ''trunk'')],
      op_patterns = [''author''], op_replacement = ''[REDACTED]'', op_remote_url = [],
      op_token = ''t0ken'', op_repo_name_template = ''{repo_name}-rewritten''\<rparr>"

definition three_urls :: "string list" where
  "three_urls = [''https://host/one.git'', ''https://host/gone.git'', ''https://host/three'']"

section \<open>Properties\<close>

subsection \<open>Timeline generator\<close>

lemma randomize_commit_dates_Some:
  "randomize_commit_dates rng now (Some repo) (Some s) (Some e) =
     (case iter_commits repo of
        Inl err \<Rightarrow> Inl err
      | Inr cs \<Rightarrow>
          Inr (map (\<lambda>sec. s + sec) (rev (sort (map (\<lambda>k. rng k * (e - s)) [0..<length cs])))))"
  by (simp add: randomize_commit_dates_def Let_def split: sum.splits)

lemma descending_shifted:
  "sorted_wrt (\<lambda>a b. b \<le> a) (map (\<lambda>sec. (s::rat) + sec) (rev (sort xs)))"
  by (simp add: sorted_wrt_map sorted_wrt_rev)

lemma iter_commits_nonempty: "iter_commits r = Inr cs \<Longrightarrow> cs \<noteq> []"
  by (auto simp: iter_commits_def split: option.splits list.splits)

lemma two_commits_commits:
  "iter_commits two_commits = Inr [jane\<lparr>hexsha := ''1234567890'', message := ''second''\<rparr>, jane]"
  by (simp add: iter_commits_def two_commits_def head_ref_def)

lemma no_commits_raises: "iter_commits no_commits = Inl (ValueError (NoSuchReference ''refs/heads/main''))"
  by (simp add: iter_commits_def no_commits_def head_ref_def)

lemma harmonic_unit: "0 \<le> harmonic k \<and> harmonic k < 1"
  by (simp add: harmonic_def)

text \<open>
  C1 as stated fails at \<open>N = 0\<close>: on a repository without commits the enumeration of the
  commits raises, so the generator returns no sequence, not the empty one.
\<close>

theorem randomize_commit_dates_no_commits:
  "randomize_commit_dates harmonic 0 (Some no_commits) (Some 10) (Some 20)
     = Inl (ValueError (NoSuchReference ''refs/heads/main''))"
  by (simp add: randomize_commit_dates_Some no_commits_raises)

text \<open>
  C1, amended. For every interval \<open>s \<le> e\<close>, with random draws in \<open>[0, 1)\<close>: when HEAD
  resolves, to \<open>N \<ge> 1\<close> commits, the generator returns exactly \<open>N\<close> timestamps, each
  within \<open>[s, e]\<close>, in non-increasing order; when it does not, the generator raises the
  library's error.
\<close>

theorem randomize_commit_dates_spec:
  assumes "s \<le> e" and "\<forall>k. 0 \<le> rng k \<and> rng k < 1"
  shows "(\<forall>cs. iter_commits repo = Inr cs \<longrightarrow>
            (\<exists>ds. randomize_commit_dates rng now (Some repo) (Some s) (Some e) = Inr ds
               \<and> length ds = length cs \<and> 1 \<le> length ds
               \<and> (\<forall>d\<in>set ds. s \<le> d \<and> d \<le> e)
               \<and> sorted_wrt (\<lambda>a b. b \<le> a) ds))
         \<and> (\<forall>err. iter_commits repo = Inl err \<longrightarrow>
              randomize_commit_dates rng now (Some repo) (Some s) (Some e) = Inl err)"
proof (intro conjI allI impI)
  fix cs assume cs: "iter_commits repo = Inr cs"
  let ?secs = "map (\<lambda>k. rng k * (e - s)) [0..<length cs]"
  let ?ds = "map (\<lambda>sec. s + sec) (rev (sort ?secs))"
  have range: "0 \<le> x \<and> x \<le> e - s" if "x \<in> set ?secs" for x
  proof -
    from that obtain k where x: "x = rng k * (e - s)" by auto
    from assms have "0 \<le> rng k" "rng k \<le> 1" by (auto simp: less_imp_le)
    moreover from assms have "0 \<le> e - s" by simp
    ultimately show ?thesis unfolding x
      by (simp add: mult_left_le_one_le)
  qed
  have bounds: "\<forall>d\<in>set ?ds. s \<le> d \<and> d \<le> e"
  proof
    fix d assume "d \<in> set ?ds"
    then obtain x where "x \<in> set ?secs" "d = s + x" by auto
    with range [of x] show "s \<le> d \<and> d \<le> e" by simp
  qed
  from iter_commits_nonempty [OF cs] have "1 \<le> length ?ds"
    by (cases cs) simp_all
  with bounds show "\<exists>ds. randomize_commit_dates rng now (Some repo) (Some s) (Some e) = Inr ds
               \<and> length ds = length cs \<and> 1 \<le> length ds
               \<and> (\<forall>d\<in>set ds. s \<le> d \<and> d \<le> e)
               \<and> sorted_wrt (\<lambda>a b. b \<le> a) ds"
    unfolding randomize_commit_dates_Some cs
    by (intro exI [of _ ?ds]) (simp add: descending_shifted)
next
  fix err assume "iter_commits repo = Inl err"
  then show "randomize_commit_dates rng now (Some repo) (Some s) (Some e) = Inl err"
    by (simp add: randomize_commit_dates_Some)
qed

theorem randomize_commit_dates_spec_witness:
  "(10::rat) \<le> 20 \<and> 0 \<le> harmonic 0 \<and> harmonic 0 < 1 \<and> 0 \<le> harmonic 1 \<and> harmonic 1 < 1
   \<and> (\<exists>cs. iter_commits two_commits = Inr cs \<and> length cs = 2)
   \<and> (\<exists>ds. randomize_commit_dates harmonic 0 (Some two_commits) (Some 10) (Some 20) = Inr ds
         \<and> ds = [15, 40 / 3] \<and> length ds = 2 \<and> sorted_wrt (\<lambda>a b. b \<le> a) ds)
   \<and> randomize_commit_dates harmonic 0 (Some no_commits) (Some 10) (Some 20)
        = Inl (ValueError (NoSuchReference ''refs/heads/main''))"
proof -
  have h1: "(10::rat) \<le> 20" by simp
  have h2: "\<forall>k. 0 \<le> harmonic k \<and> harmonic k < 1"
    by (simp add: harmonic_unit)
  have v: "randomize_commit_dates harmonic 0 (Some two_commits) (Some 10) (Some 20) = Inr [15, 40 / 3]"
    by (simp add: randomize_commit_dates_Some two_commits_commits numeral_2_eq_2 harmonic_def)
  note spec = randomize_commit_dates_spec [OF h1 h2]
  from spec [of two_commits 0] two_commits_commits
  obtain ds where "randomize_commit_dates harmonic 0 (Some two_commits) (Some 10) (Some 20) = Inr ds"
    and "length ds = 2" and "sorted_wrt (\<lambda>a b. b \<le> a) ds"
    by auto
  moreover from spec [of no_commits 0] no_commits_raises
  have "randomize_commit_dates harmonic 0 (Some no_commits) (Some 10) (Some 20)
        = Inl (ValueError (NoSuchReference ''refs/heads/main''))"
    by blast
  ultimately show ?thesis
    using v h1 by (simp add: harmonic_unit two_commits_commits)
qed

text \<open>
  C7 as stated fails: with the end of the interval before its start the generator
  returns timestamps, it raises nothing.
\<close>

theorem randomize_commit_dates_reversed_interval:
  "randomize_commit_dates harmonic 0 (Some two_commits) (Some 20) (Some 10) = Inr [50 / 3, 15]"
  by (simp add: randomize_commit_dates_Some two_commits_commits numeral_2_eq_2 harmonic_def)

text \<open>
  C7, amended. For every interval with \<open>e < s\<close> the generator makes no check of the
  interval: when HEAD resolves it returns one timestamp per commit, each within
  \<open>[e, s]\<close>, in non-increasing order; its only failure is the library's error on a HEAD
  that does not resolve, the same as for any other interval.
\<close>

theorem randomize_commit_dates_reversed:
  assumes "e < s" and "\<forall>k. 0 \<le> rng k \<and> rng k < 1"
  shows "(\<forall>cs. iter_commits repo = Inr cs \<longrightarrow>
            (\<exists>ds. randomize_commit_dates rng now (Some repo) (Some s) (Some e) = Inr ds
               \<and> length ds = length cs
               \<and> (\<forall>d\<in>set ds. e \<le> d \<and> d \<le> s)
               \<and> sorted_wrt (\<lambda>a b. b \<le> a) ds))
         \<and> (\<forall>err. randomize_commit_dates rng now (Some repo) (Some s) (Some e) = Inl err \<longrightarrow>
              iter_commits repo = Inl err)"
proof (intro conjI allI impI)
  fix cs assume cs: "iter_commits repo = Inr cs"
  let ?secs = "map (\<lambda>k. rng k * (e - s)) [0..<length cs]"
  let ?ds = "map (\<lambda>sec. s + sec) (rev (sort ?secs))"
  have range: "e - s \<le> x \<and> x \<le> 0" if "x \<in> set ?secs" for x
  proof -
    from that obtain k where x: "x = rng k * (e - s)" by auto
    from assms have r: "0 \<le> rng k" "rng k \<le> 1" by (auto simp: less_imp_le)
    from assms have neg: "0 \<le> s - e" by simp
    from r neg have "rng k * (s - e) \<le> s - e" "0 \<le> rng k * (s - e)"
      by (simp_all add: mult_left_le_one_le)
    then show ?thesis unfolding x
      by (simp add: algebra_simps)
  qed
  have "\<forall>d\<in>set ?ds. e \<le> d \<and> d \<le> s"
  proof
    fix d assume "d \<in> set ?ds"
    then obtain x where "x \<in> set ?secs" "d = s + x" by auto
    with range [of x] show "e \<le> d \<and> d \<le> s" by simp
  qed
  then show "\<exists>ds. randomize_commit_dates rng now (Some repo) (Some s) (Some e) = Inr ds
               \<and> length ds = length cs
               \<and> (\<forall>d\<in>set ds. e \<le> d \<and> d \<le> s)
               \<and> sorted_wrt (\<lambda>a b. b \<le> a) ds"
    unfolding randomize_commit_dates_Some cs
    by (intro exI [of _ ?ds]) (simp add: descending_shifted)
next
  fix err assume "randomize_commit_dates rng now (Some repo) (Some s) (Some e) = Inl err"
  then show "iter_commits repo = Inl err"
    by (simp add: randomize_commit_dates_Some split: sum.splits)
qed

theorem randomize_commit_dates_reversed_witness:
  "(10::rat) < 20 \<and> 0 \<le> harmonic 0 \<and> harmonic 0 < 1 \<and> 0 \<le> harmonic 1 \<and> harmonic 1 < 1
   \<and> (\<exists>cs. iter_commits two_commits = Inr cs \<and> length cs = 2)
   \<and> (\<exists>ds. randomize_commit_dates harmonic 0 (Some two_commits) (Some 20) (Some 10) = Inr ds
         \<and> length ds = 2 \<and> sorted_wrt (\<lambda>a b. b \<le> a) ds)"
proof -
  have h1: "(10::rat) < 20" by simp
  have h2: "\<forall>k. 0 \<le> harmonic k \<and> harmonic k < 1"
    by (simp add: harmonic_unit)
  note spec = randomize_commit_dates_reversed [OF h1 h2]
  from spec [of two_commits 0] two_commits_commits
  obtain ds where "randomize_commit_dates harmonic 0 (Some two_commits) (Some 20) (Some 10) = Inr ds"
    and "length ds = 2" and "sorted_wrt (\<lambda>a b. b \<le> a) ds"
    by auto
  with h1 show ?thesis
    by (simp add: harmonic_unit two_commits_commits)
qed

subsection \<open>Metadata rewrite\<close>

lemma is_backup_original [simp]: "is_backup (backup_name name)"
  by (simp add: is_backup_def backup_name_def)

lemma head_ref_no_backup [simp]: "\<not> is_backup (head_ref r)"
  by (simp add: is_backup_def head_ref_def)

lemma frame_filter_branch:
  "head (filter_branch mk_id f revs r) = head r"
  "annotated (filter_branch mk_id f revs r) = annotated r"
  "scratch (filter_branch mk_id f revs r) = scratch r"
  "worktree (filter_branch mk_id f revs r) = worktree r"
  "remotes (filter_branch mk_id f revs r) = remotes r"
  "head_ref (filter_branch mk_id f revs r) = head_ref r"
  by (simp_all add: filter_branch_def Let_def head_ref_def)

lemma refs_filter_branch:
  "refs (filter_branch mk_id f revs r) =
     map (\<lambda>(name, cs). (name, moved_ref mk_id f revs r name cs))
       (filter (\<lambda>(name, cs). \<not> is_backup name) (refs r))
     @ map (\<lambda>(name, cs). (backup_name name, cs))
         (filter (\<lambda>(name, cs). selected revs r name \<and> map f cs \<noteq> cs)
            (filter (\<lambda>(name, cs). \<not> is_backup name) (refs r)))"
  by (simp add: filter_branch_def Let_def moved_ref_def split_def cong: if_cong)


lemma length_moved_ref: "length (moved_ref mk_id f revs r name cs) = length cs"
  by (simp add: moved_ref_def)


lemma map_of_keyed_map:
  "map_of (map (\<lambda>(k, v). (k, h k v)) xs) k = map_option (h k) (map_of xs k)"
  by (induction xs) auto

lemma map_of_filter_keys:
  "P k \<Longrightarrow> map_of (filter (\<lambda>(k, v). P k) xs) k = map_of xs k"
  by (induction xs) auto

lemma map_of_backups:
  "\<not> is_backup k \<Longrightarrow> map_of (map (\<lambda>(name, cs). (backup_name name, cs)) xs) k = None"
  by (induction xs) auto

lemma lookup_filter_branch:
  assumes "\<not> is_backup k"
  shows "map_of (refs (filter_branch mk_id f revs r)) k
           = map_option (moved_ref mk_id f revs r k) (map_of (refs r) k)"
  using assms
  by (simp add: refs_filter_branch map_add_def map_of_keyed_map map_of_backups
      map_of_filter_keys [where P = "\<lambda>k. \<not> is_backup k"] split: option.splits)

lemma iter_commits_filter_branch:
  "iter_commits (filter_branch mk_id f revs r) =
     map_sum id (moved_ref mk_id f revs r (head_ref r)) (iter_commits r)"
proof -
  have ne: "moved_ref mk_id f revs r (head_ref r) cs = [] \<longleftrightarrow> cs = []" for cs
    using length_moved_ref [of mk_id f revs r "head_ref r" cs] by (metis length_0_conv)
  show ?thesis
  proof (cases "map_of (refs r) (head_ref r)")
    case None
    then show ?thesis
      by (simp add: iter_commits_def lookup_filter_branch frame_filter_branch)
  next
    case (Some cs)
    show ?thesis
    proof (cases cs)
      case Nil
      with Some show ?thesis
        by (simp add: iter_commits_def lookup_filter_branch frame_filter_branch moved_ref_def)
    next
      case (Cons c cs')
      with ne [of cs] obtain d ds where "moved_ref mk_id f revs r (head_ref r) cs = d # ds"
        by (cases "moved_ref mk_id f revs r (head_ref r) cs") auto
      with Some Cons show ?thesis
        by (simp add: iter_commits_def lookup_filter_branch frame_filter_branch)
    qed
  qed
qed

lemma commit_count_filter_branch:
  "map_sum id length (iter_commits (filter_branch mk_id f revs r)) = map_sum id length (iter_commits r)"
  by (cases "iter_commits r") (simp_all add: iter_commits_filter_branch length_moved_ref)











lemma update_commit_dates_unfold:
  "update_commit_dates tool ds r =
     (case iter_commits r of
        Inl e \<Rightarrow> (Inl e, r)
      | Inr cs \<Rightarrow>
          if length cs \<noteq> length ds
          then (Inl (ValueError (CountMismatch (length cs) (length ds))), r)
          else (case dates_rewrite_stderr tool of
                  Some stderr \<Rightarrow>
                    (Inl (RuntimeError (''Error updating commit dates: '' @ stderr)),
                     r\<lparr>scratch := write_file ''change_dates.sh'' (write_file ''date_map.txt'' (scratch r))\<rparr>)
                | None \<Rightarrow>
                    (Inr True,
                     (filter_branch (new_id tool) (change_dates (build_date_map cs ds)) AllRefs
                        (r\<lparr>scratch := write_file ''change_dates.sh'' (write_file ''date_map.txt'' (scratch r))\<rparr>))
                     \<lparr>scratch := os_remove ''change_dates.sh'' (os_remove ''date_map.txt''
                         (write_file ''change_dates.sh'' (write_file ''date_map.txt'' (scratch r))))\<rparr>)))"
  by (simp add: update_commit_dates_def Let_def frame_filter_branch split: sum.splits option.splits)













text \<open>
  C3 as stated fails: with three dates for two commits the rewrite fails with the count
  mismatch, but only after the identity rewrite has changed the refs.
\<close>

theorem update_commit_metadata_mutates_before_validation:
  "fst (update_commit_metadata tool_ok ''A'' ''a@x.com'' (Some [7 / 2, 9, 1]) two_commits)
     = Inl (ValueError (CountMismatch 2 3))
   \<and> refs (snd (update_commit_metadata tool_ok ''A'' ''a@x.com'' (Some [7 / 2, 9, 1]) two_commits))
     \<noteq> refs two_commits"
  by code_simp

text \<open>
  C3, amended. With a non-empty date list whose length differs from the commit count, and
  an identity rewrite that is skipped or succeeds, the rewrite fails with the count
  mismatch (on a HEAD that does not resolve, with the library's \<open>ValueError\<close> at the same
  point) before the date rewrite is attempted: the repository is the one the identity
  rewrite left (the given one when no identity was supplied) and no scratch file is
  written.
\<close>

theorem update_commit_metadata_count_mismatch:
  assumes "ds \<noteq> []" and "map_sum id length (iter_commits r) \<noteq> Inr (length ds)"
    and "a = [] \<or> e = [] \<or> author_rewrite_stderr tool = None"
  shows "update_commit_metadata tool a e (Some ds) r =
           (Inl (case iter_commits r of
                   Inl err \<Rightarrow> err
                 | Inr cs \<Rightarrow> ValueError (CountMismatch (length cs) (length ds))),
            if a \<noteq> [] \<and> e \<noteq> [] then filter_branch (new_id tool) (author_filter a e) AllRefs r else r)
         \<and> scratch (snd (update_commit_metadata tool a e (Some ds) r)) = scratch r"
proof -
  let ?r1 = "if a \<noteq> [] \<and> e \<noteq> [] then filter_branch (new_id tool) (author_filter a e) AllRefs r else r"
  from assms(3) have run: "run_author_filter tool a e r = Inr ?r1"
    by (auto simp: run_author_filter_def)
  have count: "map_sum id length (iter_commits ?r1) = map_sum id length (iter_commits r)"
    by (simp add: commit_count_filter_branch)
  have err: "(case iter_commits ?r1 of Inl err \<Rightarrow> err
                | Inr cs \<Rightarrow> ValueError (CountMismatch (length cs) (length ds)))
           = (case iter_commits r of Inl err \<Rightarrow> err
                | Inr cs \<Rightarrow> ValueError (CountMismatch (length cs) (length ds)))"
    using count by (cases "iter_commits ?r1"; cases "iter_commits r") auto
  from assms(2) count have mismatch: "map_sum id length (iter_commits ?r1) \<noteq> Inr (length ds)"
    by simp
  have dates: "update_commit_dates tool ds ?r1 =
      (Inl (case iter_commits ?r1 of Inl err \<Rightarrow> err
             | Inr cs \<Rightarrow> ValueError (CountMismatch (length cs) (length ds))), ?r1)"
    using mismatch by (cases "iter_commits ?r1") (auto simp: update_commit_dates_unfold)
  have "update_commit_metadata tool a e (Some ds) r =
      (Inl (case iter_commits r of Inl err \<Rightarrow> err
             | Inr cs \<Rightarrow> ValueError (CountMismatch (length cs) (length ds))), ?r1)"
    unfolding update_commit_metadata_def run using assms(1) dates err by simp
  moreover have "scratch ?r1 = scratch r"
    by (simp add: frame_filter_branch)
  ultimately show ?thesis by simp
qed

theorem update_commit_metadata_count_mismatch_witness:
  "[7 / 2, 9, 1] \<noteq> ([] :: rat list)
   \<and> map_sum id length (iter_commits two_commits) = Inr 2
   \<and> author_rewrite_stderr tool_ok = None
   \<and> update_commit_metadata tool_ok [] ''a@x.com'' (Some [7 / 2, 9, 1]) two_commits =
        (Inl (ValueError (CountMismatch 2 3)), two_commits)
   \<and> update_commit_metadata tool_ok [] ''a@x.com'' (Some [7 / 2, 9, 1]) no_commits =
        (Inl (ValueError (NoSuchReference ''refs/heads/main'')), no_commits)"
proof -
  have h1: "[7 / 2, 9, 1] \<noteq> ([] :: rat list)" by simp
  have c2: "map_sum id length (iter_commits two_commits) = Inr 2"
    by (simp add: two_commits_commits)
  have h2: "map_sum id length (iter_commits two_commits) \<noteq> Inr (length [7 / 2, 9, 1 :: rat])"
    by (simp add: two_commits_commits)
  have h2': "map_sum id length (iter_commits no_commits) \<noteq> Inr (length [7 / 2, 9, 1 :: rat])"
    by (simp add: no_commits_raises)
  have h3: "[] = ([] :: string) \<or> ''a@x.com'' = [] \<or> author_rewrite_stderr tool_ok = None"
    by simp
  from update_commit_metadata_count_mismatch [OF h1 h2 h3]
    update_commit_metadata_count_mismatch [OF h1 h2' h3] c2
  show ?thesis
    by (simp add: two_commits_commits no_commits_raises tool_ok_def)
qed

text \<open>
  C9 at a failing run of the rewrite tool: the function raises with both scratch files
  still in place; they are removed on the success path only.
\<close>

theorem update_commit_dates_leaves_scratch_files:
  "update_commit_dates tool_dates_fail [7 / 2, 9] two_commits =
     (Inl (RuntimeError ''Error updating commit dates: fatal: bad revision''),
      two_commits\<lparr>scratch := [''date_map.txt'', ''change_dates.sh'']\<rparr>)"
  by code_simp

lemma update_commit_dates_success_removes:
  assumes "dates_rewrite_stderr tool = None" and "map_sum id length (iter_commits r) = Inr (length ds)"
  shows "fst (update_commit_dates tool ds r) = Inr True
     \<and> ''date_map.txt'' \<notin> set (scratch (snd (update_commit_dates tool ds r)))
     \<and> ''change_dates.sh'' \<notin> set (scratch (snd (update_commit_dates tool ds r)))"
  using assms
  by (cases "iter_commits r") (auto simp: update_commit_dates_unfold os_remove_def)

subsection \<open>Branch renaming\<close>

lemma two_branches_names: "branches two_branches = [''main'', ''dev'']"
  by code_simp

text \<open>
  C8. \<open>rename_branch\<close> fails (returns \<open>False\<close>, with an error event naming the cause) when
  the old name is absent and when the new name is taken; renaming a branch to its own
  name is the second case. In all three the repository, hence its branch list, is
  returned unchanged.
\<close>

theorem rename_branch_failures:
  "(old_name \<notin> set (branches r) \<longrightarrow>
      rename_branch git_branch_m old_name new_name r =
        (Inr False, [(''ERROR'', ''Branch '' @ old_name @ '' does not exist'')], r))
   \<and> (old_name \<in> set (branches r) \<and> new_name \<in> set (branches r) \<longrightarrow>
      rename_branch git_branch_m old_name new_name r =
        (Inr False, [(''ERROR'', ''Branch '' @ new_name @ '' already exists'')], r))
   \<and> (old_name \<in> set (branches r) \<longrightarrow>
      rename_branch git_branch_m old_name old_name r =
        (Inr False, [(''ERROR'', ''Branch '' @ old_name @ '' already exists'')], r))"
  by (simp add: rename_branch_def)

theorem rename_branch_failures_witness:
  "rename_branch (\<lambda>a b. None) ''gone'' ''new'' two_branches =
     (Inr False, [(''ERROR'', ''Branch gone does not exist'')], two_branches)
   \<and> rename_branch (\<lambda>a b. None) ''dev'' ''main'' two_branches =
     (Inr False, [(''ERROR'', ''Branch main already exists'')], two_branches)
   \<and> rename_branch (\<lambda>a b. None) ''dev'' ''dev'' two_branches =
     (Inr False, [(''ERROR'', ''Branch dev already exists'')], two_branches)
   \<and> branches two_branches = [''main'', ''dev'']"
  using rename_branch_failures [of "''gone''" two_branches "\<lambda>a b. None" "''new''"]
    rename_branch_failures [of "''dev''" two_branches "\<lambda>a b. None" "''main''"]
  by (simp add: two_branches_names)

subsection \<open>Content scrub\<close>

lemma valid_patterns_Cons:
  "valid_patterns re (p # ps) repl \<longleftrightarrow>
     pattern_error re p = None \<and> template_error re p repl = None \<and> valid_patterns re ps repl"
  by (simp add: valid_patterns_def)

lemma matches_any_simps:
  "matches_any re [] s = False"
  "matches_any re (p # ps) s = (re_search re p s \<or> matches_any re ps s)"
  by (simp_all add: matches_any_def)

lemma replace_patterns_valid:
  assumes "valid_patterns re ps repl"
  shows "\<exists>s'. replace_patterns re ps repl s m = Inr (s', m \<or> matches_any re ps s)
              \<and> (\<not> matches_any re ps s \<longrightarrow> s' = s)"
  using assms
proof (induction ps arbitrary: s m)
  case Nil
  then show ?case by (simp add: matches_any_simps)
next
  case (Cons p ps)
  then have ok: "pattern_error re p = None" "template_error re p repl = None"
    and rest: "valid_patterns re ps repl"
    by (simp_all add: valid_patterns_Cons)
  show ?case
  proof (cases "re_search re p s")
    case True
    from Cons.IH [OF rest, of "re_sub re p repl s" True]
    show ?thesis using True ok by (auto simp: matches_any_simps)
  next
    case False
    from Cons.IH [OF rest, of s m]
    show ?thesis using False ok by (auto simp: matches_any_simps)
  qed
qed

lemma keys_update_present:
  "map_of fs p = Some c \<Longrightarrow> map fst (AList.update p c' fs) = map fst fs"
  by (auto simp: update_keys dest: map_of_SomeD intro: rev_image_eqI)

lemma scan_and_replace_valid:
  assumes "valid_patterns re ps repl"
  shows "\<exists>fs'. scan_and_replace re p ps repl fs = (Inr (file_matches re ps fs p), fs')
           \<and> (\<not> file_matches re ps fs p \<longrightarrow> fs' = fs)
           \<and> (\<forall>q. q \<noteq> p \<longrightarrow> map_of fs' q = map_of fs q)
           \<and> map fst fs' = map fst fs"
proof (cases "map_of fs p")
  case None
  then show ?thesis by (simp add: scan_and_replace_def file_matches_def)
next
  case (Some c)
  show ?thesis
  proof (cases c)
    case (Binary bytes)
    with Some show ?thesis by (simp add: scan_and_replace_def file_matches_def)
  next
    case (Text s)
    from replace_patterns_valid [OF assms, of s False]
    obtain s' where s': "replace_patterns re ps repl s False = Inr (s', matches_any re ps s)"
      by auto
    with Some Text show ?thesis
      by (simp add: scan_and_replace_def file_matches_def update_conv' keys_update_present)
  qed
qed

lemma update_files_valid:
  assumes "valid_patterns re ps repl" and "distinct files"
  shows "\<exists>fs'. update_files re ps repl files fs n =
                 (Inr (n + length (filter (file_matches re ps fs) files)), fs')
           \<and> (\<forall>q. q \<in> set files \<and> file_matches re ps fs q \<or> map_of fs' q = map_of fs q)
           \<and> map fst fs' = map fst fs"
  using assms(2)
proof (induction files arbitrary: fs n)
  case Nil
  then show ?case by simp
next
  case (Cons p files)
  from scan_and_replace_valid [OF assms(1), of p fs]
  obtain fs1 where scan: "scan_and_replace re p ps repl fs = (Inr (file_matches re ps fs p), fs1)"
    and same: "\<not> file_matches re ps fs p \<longrightarrow> fs1 = fs"
    and others: "\<forall>q. q \<noteq> p \<longrightarrow> map_of fs1 q = map_of fs q"
    and keys: "map fst fs1 = map fst fs"
    by blast
  from Cons.prems have fresh: "p \<notin> set files" and dist: "distinct files" by simp_all
  from fresh others have agree: "file_matches re ps fs1 q = file_matches re ps fs q" if "q \<in> set files" for q
    using that by (auto simp: file_matches_def)
  then have count: "filter (file_matches re ps fs1) files = filter (file_matches re ps fs) files"
    by (auto intro: filter_cong)
  from Cons.IH [OF dist, of fs1 "if file_matches re ps fs p then n + 1 else n"]
  obtain fs' where run: "update_files re ps repl files fs1 (if file_matches re ps fs p then n + 1 else n) =
        (Inr ((if file_matches re ps fs p then n + 1 else n) + length (filter (file_matches re ps fs1) files)), fs')"
    and frame: "\<forall>q. q \<in> set files \<and> file_matches re ps fs1 q \<or> map_of fs' q = map_of fs1 q"
    and keys': "map fst fs' = map fst fs1"
    by blast
  have "update_files re ps repl (p # files) fs n =
          (Inr (n + length (filter (file_matches re ps fs) (p # files))), fs')"
    using scan run count by simp
  moreover have "\<forall>q. q \<in> set (p # files) \<and> file_matches re ps fs q \<or> map_of fs' q = map_of fs q"
  proof
    fix q
    show "q \<in> set (p # files) \<and> file_matches re ps fs q \<or> map_of fs' q = map_of fs q"
    proof (cases "q = p")
      case True
      from spec [OF frame, of q] fresh True have "map_of fs' q = map_of fs1 q" by auto
      with same True show ?thesis by auto
    next
      case False
      from spec [OF frame, of q] show ?thesis
      proof
        assume "q \<in> set files \<and> file_matches re ps fs1 q"
        with agree [of q] show ?thesis by simp
      next
        assume "map_of fs' q = map_of fs1 q"
        with others False show ?thesis by simp
      qed
    qed
  qed
  moreover have "map fst fs' = map fst fs" using keys keys' by simp
  ultimately show ?case by blast
qed

lemma distinct_os_walk: "distinct (map fst fs) \<Longrightarrow> distinct (os_walk fs)"
  by (simp add: os_walk_def distinct_map_filter)

text \<open>
  C10. With patterns that compile and distinct paths: a text file that no pattern matches
  makes \<open>scan_and_replace\<close> return \<open>False\<close> and leaves the file system as it is;
  \<open>update_all_files\<close> returns the number of walked files that some pattern matches,
  changes no other file and creates or removes none.
\<close>

theorem scrub_touches_matching_files_only:
  assumes "valid_patterns re patterns replacement" and "distinct (map fst fs)"
  shows "(\<forall>p s. map_of fs p = Some (Text s) \<and> \<not> matches_any re patterns s \<longrightarrow>
            scan_and_replace re p patterns replacement fs = (Inr False, fs))
         \<and> (\<exists>fs'. update_all_files re patterns replacement fs =
                    (Inr (length (filter (file_matches re patterns fs) (os_walk fs))), fs')
               \<and> (\<forall>p. p \<in> set (os_walk fs) \<and> file_matches re patterns fs p
                       \<or> map_of fs' p = map_of fs p)
               \<and> map fst fs' = map fst fs)"
proof
  show "\<forall>p s. map_of fs p = Some (Text s) \<and> \<not> matches_any re patterns s \<longrightarrow>
            scan_and_replace re p patterns replacement fs = (Inr False, fs)"
  proof (intro allI impI)
    fix p s assume a: "map_of fs p = Some (Text s) \<and> \<not> matches_any re patterns s"
    then have "\<not> file_matches re patterns fs p" by (simp add: file_matches_def)
    with scan_and_replace_valid [OF assms(1), of p fs]
    show "scan_and_replace re p patterns replacement fs = (Inr False, fs)" by auto
  qed
next
  from update_files_valid [OF assms(1) distinct_os_walk [OF assms(2)], of fs 0]
  show "\<exists>fs'. update_all_files re patterns replacement fs =
                    (Inr (length (filter (file_matches re patterns fs) (os_walk fs))), fs')
               \<and> (\<forall>p. p \<in> set (os_walk fs) \<and> file_matches re patterns fs p
                       \<or> map_of fs' p = map_of fs p)
               \<and> map fst fs' = map fst fs"
    by (simp add: update_all_files_def)
qed

lemma literal_re_valid: "valid_patterns literal_re patterns replacement"
  by (simp add: valid_patterns_def literal_re_def list_all_iff)

lemma notice_tree_distinct: "distinct (map fst notice_tree)"
  by (simp add: notice_tree_def)

theorem scrub_touches_matching_files_only_witness:
  "valid_patterns literal_re [''copyright'', ''license''] ''[REDACTED]''
   \<and> distinct (map fst notice_tree)
   \<and> map_of notice_tree [''docs'', ''credits.txt''] = Some (Text ''written by the author'')
   \<and> scan_and_replace literal_re [''docs'', ''credits.txt''] [''copyright'', ''license''] ''[REDACTED]''
        notice_tree = (Inr False, notice_tree)
   \<and> fst (update_all_files literal_re [''copyright'', ''license''] ''[REDACTED]'' notice_tree) = Inr 0"
proof -
  let ?ps = "[''copyright'', ''license'']"
  have there: "map_of notice_tree [''docs'', ''credits.txt''] = Some (Text ''written by the author'')"
    by (simp add: notice_tree_def)
  have clean: "\<not> matches_any literal_re ?ps ''written by the author''"
    by code_simp
  have none: "filter (file_matches literal_re ?ps notice_tree) (os_walk notice_tree) = []"
    by code_simp
  note spec = scrub_touches_matching_files_only [OF literal_re_valid notice_tree_distinct,
      of ?ps "''[REDACTED]''"]
  from spec there clean
  have "scan_and_replace literal_re [''docs'', ''credits.txt''] ?ps ''[REDACTED]'' notice_tree
          = (Inr False, notice_tree)"
    by blast
  moreover from spec none
  have "fst (update_all_files literal_re ?ps ''[REDACTED]'' notice_tree) = Inr 0"
    by auto
  ultimately show ?thesis
    using there by (simp add: literal_re_valid notice_tree_distinct)
qed

text \<open>
  C5 at the file of the claim: the pattern \<open>copyright\<close> does not match
  \<open>Copyright 2020 Jane Doe\<close>, the search is case-sensitive, and the file stays as it
  is. A file that does not decode is skipped, and the lower-case text is redacted.
\<close>

theorem scan_and_replace_is_case_sensitive:
  "scan_and_replace literal_re [''NOTICE''] [''copyright''] ''[REDACTED]'' notice_tree
     = (Inr False, notice_tree)
   \<and> map_of notice_tree [''NOTICE''] = Some (Text ''Copyright 2020 Jane Doe'')"
  by code_simp

lemma scan_and_replace_binary:
  "map_of fs p = Some (Binary bytes) \<Longrightarrow> scan_and_replace re p patterns replacement fs = (Inr False, fs)"
  by (simp add: scan_and_replace_def)

lemma scan_and_replace_lower_case:
  "scan_and_replace literal_re [''NOTICE''] [''copyright''] ''[REDACTED]''
     [([''NOTICE''], Text ''copyright 2020 Jane Doe'')]
     = (Inr True, [([''NOTICE''], Text ''[REDACTED] 2020 Jane Doe'')])"
  by code_simp

text \<open>
  C6 as stated fails: with a replacement that the pattern matches, the second run
  modifies the file again and creates a second commit.
\<close>

theorem scrub_twice_modifies_again:
  "fst (update_all_files literal_re [''author''] ''the author''
          (snd (update_all_files literal_re [''author''] ''the author'' notice_tree))) = Inr 1
   \<and> map_sum id length (iter_commits (snd (clean_sensitive_data literal_re commit_as_jane
        [''author''] ''the author''
        (snd (clean_sensitive_data literal_re commit_as_jane [''author''] ''the author''
           (two_commits\<lparr>worktree := notice_tree\<rparr>)))))) = Inr 4"
  by code_simp

lemma update_files_no_match:
  assumes "valid_patterns re ps repl" and "\<forall>p\<in>set files. \<not> file_matches re ps fs p"
  shows "update_files re ps repl files fs n = (Inr n, fs)"
  using assms(2)
proof (induction files arbitrary: n)
  case Nil
  then show ?case by simp
next
  case (Cons p files)
  then have "\<not> file_matches re ps fs p" by simp
  with scan_and_replace_valid [OF assms(1), of p fs]
  have "scan_and_replace re p ps repl fs = (Inr False, fs)" by auto
  with Cons show ?case by simp
qed

lemma replace_patterns_clears:
  assumes "valid_patterns re ps repl"
    and "set ps \<subseteq> P" and "Q \<subseteq> P"
    and "\<forall>p\<in>P. \<forall>s. \<not> re_search re p (re_sub re p repl s)"
    and "\<forall>p\<in>P. \<forall>q\<in>P. \<forall>s. \<not> re_search re q s \<longrightarrow> \<not> re_search re q (re_sub re p repl s)"
    and "\<forall>q\<in>Q. \<not> re_search re q s"
  shows "\<exists>s'. replace_patterns re ps repl s m = Inr (s', m \<or> matches_any re ps s)
              \<and> (\<forall>q\<in>Q \<union> set ps. \<not> re_search re q s')"
  using assms(1,2,3,6)
proof (induction ps arbitrary: s m Q)
  case Nil
  then show ?case by (simp add: matches_any_simps)
next
  case (Cons p ps)
  then have ok: "pattern_error re p = None" "template_error re p repl = None"
    and rest: "valid_patterns re ps repl"
    by (simp_all add: valid_patterns_Cons)
  from Cons.prems have p: "p \<in> P" and ps: "set ps \<subseteq> P" and Q: "insert p Q \<subseteq> P"
    by simp_all
  show ?case
  proof (cases "re_search re p s")
    case True
    have clean: "\<forall>q\<in>insert p Q. \<not> re_search re q (re_sub re p repl s)"
    proof
      fix q assume q: "q \<in> insert p Q"
      show "\<not> re_search re q (re_sub re p repl s)"
      proof (cases "q = p")
        case True
        with assms(4) p show ?thesis by simp
      next
        case False
        with q have "q \<in> Q" by simp
        with Cons.prems have "q \<in> P" "\<not> re_search re q s" by auto
        with assms(5) p show ?thesis by simp
      qed
    qed
    from Cons.IH [OF rest ps Q clean, of True]
    show ?thesis using True ok by (auto simp: matches_any_simps)
  next
    case False
    with Cons.prems have clean: "\<forall>q\<in>insert p Q. \<not> re_search re q s" by simp
    from Cons.IH [OF rest ps Q clean, of m]
    show ?thesis using False ok by (auto simp: matches_any_simps)
  qed
qed

lemma matches_any_iff: "matches_any re ps s \<longleftrightarrow> (\<exists>p\<in>set ps. re_search re p s)"
  by (simp add: matches_any_def list_ex_iff)

lemma scan_and_replace_clears:
  assumes "valid_patterns re ps repl"
    and "\<forall>p\<in>set ps. \<forall>s. \<not> re_search re p (re_sub re p repl s)"
    and "\<forall>p\<in>set ps. \<forall>q\<in>set ps. \<forall>s. \<not> re_search re q s \<longrightarrow> \<not> re_search re q (re_sub re p repl s)"
  shows "\<not> file_matches re ps (snd (scan_and_replace re p ps repl fs)) p"
proof (cases "map_of fs p")
  case None
  then show ?thesis by (simp add: scan_and_replace_def file_matches_def)
next
  case (Some c)
  show ?thesis
  proof (cases c)
    case (Binary bytes)
    with Some show ?thesis by (simp add: scan_and_replace_def file_matches_def)
  next
    case (Text s)
    from replace_patterns_clears [OF assms(1) subset_refl empty_subsetI assms(2,3), of s False]
    obtain s' where s': "replace_patterns re ps repl s False = Inr (s', matches_any re ps s)"
      and clean: "\<not> matches_any re ps s'"
      by (auto simp: matches_any_iff)
    with Some Text show ?thesis
      by (simp add: scan_and_replace_def file_matches_def update_conv')
  qed
qed

lemma update_files_clears:
  assumes "valid_patterns re ps repl"
    and "\<forall>p\<in>set ps. \<forall>s. \<not> re_search re p (re_sub re p repl s)"
    and "\<forall>p\<in>set ps. \<forall>q\<in>set ps. \<forall>s. \<not> re_search re q s \<longrightarrow> \<not> re_search re q (re_sub re p repl s)"
    and "distinct files" and "q \<in> set files"
  shows "\<not> file_matches re ps (snd (update_files re ps repl files fs n)) q"
  using assms(4,5)
proof (induction files arbitrary: fs n)
  case Nil
  then show ?case by simp
next
  case (Cons p files)
  from scan_and_replace_valid [OF assms(1), of p fs]
  obtain fs1 where scan: "scan_and_replace re p ps repl fs = (Inr (file_matches re ps fs p), fs1)"
    by blast
  from scan_and_replace_clears [OF assms(1,2,3), of p fs] scan
  have here: "\<not> file_matches re ps fs1 p" by simp
  from Cons.prems have fresh: "p \<notin> set files" and dist: "distinct files" by simp_all
  let ?n = "if file_matches re ps fs p then n + 1 else n"
  from scan have step: "update_files re ps repl (p # files) fs n = update_files re ps repl files fs1 ?n"
    by simp
  show ?case
  proof (cases "q \<in> set files")
    case True
    from Cons.IH [OF dist True, of fs1 ?n] step show ?thesis by simp
  next
    case False
    with Cons.prems have q: "q = p" by simp
    from update_files_valid [OF assms(1) dist, of fs1 ?n]
    obtain fs' where run: "snd (update_files re ps repl files fs1 ?n) = fs'"
      and frame: "\<forall>q. q \<in> set files \<and> file_matches re ps fs1 q \<or> map_of fs' q = map_of fs1 q"
      by auto
    from spec [OF frame, of p] fresh have "map_of fs' p = map_of fs1 p" by simp
    with here have "\<not> file_matches re ps fs' p" by (simp add: file_matches_def)
    with run step q show ?thesis by simp
  qed
qed

lemma os_walk_keys: "map fst fs' = map fst fs \<Longrightarrow> os_walk fs' = os_walk fs"
proof -
  have "os_walk fs = filter (\<lambda>p. ''.git'' \<notin> set (butlast p)) (map fst fs)" for fs :: filesystem
    unfolding os_walk_def by (induction fs) auto
  then show "map fst fs' = map fst fs \<Longrightarrow> os_walk fs' = os_walk fs" by simp
qed

text \<open>The literal engine: a replacement that shares no character with a pattern.\<close>

lemma contains_sublist: "contains p s \<longleftrightarrow> sublist p s"
  by (induction s) (simp_all add: sublist_Cons_right)

lemma sub_from_skip: "p \<noteq> [] \<Longrightarrow> sub_from p repl k s = sub_from p repl 0 (drop k s)"
proof (induction k arbitrary: s)
  case 0
  then show ?case by simp
next
  case (Suc k)
  then show ?case by (cases s) simp_all
qed

lemma sub_from_match:
  assumes "p \<noteq> []" and "prefix p s"
  shows "sub_from p repl 0 s = repl @ sub_from p repl 0 (drop (length p) s)"
proof (cases s)
  case Nil
  with assms show ?thesis by simp
next
  case (Cons c cs)
  from assms(1) have "drop (length p - 1) cs = drop (length p) (c # cs)"
    by (cases p) simp_all
  with Cons assms sub_from_skip [OF assms(1), of repl "length p - 1" cs] show ?thesis by simp
qed

lemma sub_from_copy:
  assumes "p \<noteq> []" and "\<not> prefix p (c # cs)"
  shows "sub_from p repl 0 (c # cs) = c # sub_from p repl 0 cs"
  using assms by simp

lemma prefix_disjoint_append:
  assumes "prefix q (repl @ t)" and "repl \<noteq> []" and "set q \<inter> set repl = {}"
  shows "q = []"
proof (rule ccontr)
  assume "q \<noteq> []"
  then obtain a q' where q: "q = a # q'" by (cases q) auto
  from assms(2) obtain b repl' where repl: "repl = b # repl'" by (cases repl) auto
  from assms(1) q repl have "a = b" by simp
  with q repl assms(3) show False by auto
qed

lemma suffix_disjoint:
  assumes "suffix q repl" and "set q \<inter> set repl = {}"
  shows "q = []"
proof -
  from assms(1) have "set q \<subseteq> set repl" by (rule set_mono_suffix)
  then have "set q \<inter> set repl = set q" by (rule Int_absorb2)
  with assms(2) show ?thesis by simp
qed

lemma sublist_across_replacement:
  assumes "sublist q (repl @ t)" and "q \<noteq> []" and "repl \<noteq> []" and "set q \<inter> set repl = {}"
  shows "sublist q t"
proof -
  from assms(1) consider "sublist q repl" | "sublist q t"
    | q1 q2 where "q = q1 @ q2" "suffix q1 repl" "prefix q2 t"
    by (auto simp: sublist_append)
  then show ?thesis
  proof cases
    case 1
    then have "set q \<subseteq> set repl" by (rule set_mono_sublist)
    then have "set q \<inter> set repl = set q" by (rule Int_absorb2)
    with assms(2,4) show ?thesis by simp
  next
    case 2
    then show ?thesis .
  next
    case 3
    from 3(1) assms(4) have "set q1 \<inter> set repl = {}" by auto
    with 3(2) have "q1 = []" by (rule suffix_disjoint)
    with 3 show ?thesis by simp
  qed
qed

lemma prefix_sub_from:
  assumes "p \<noteq> []" and "repl \<noteq> []" and "set q \<inter> set repl = {}"
    and "prefix q (sub_from p repl 0 s)"
  shows "prefix q s"
  using assms(3,4)
proof (induction s arbitrary: q)
  case Nil
  with assms(1) show ?case by simp
next
  case (Cons c cs)
  show ?case
  proof (cases "prefix p (c # cs)")
    case True
    with Cons.prems sub_from_match [OF assms(1) True, of repl]
    have "prefix q (repl @ sub_from p repl 0 (drop (length p) (c # cs)))" by simp
    from prefix_disjoint_append [OF this assms(2) Cons.prems(1)] show ?thesis by simp
  next
    case False
    with Cons.prems assms(1) have pre: "prefix q (c # sub_from p repl 0 cs)" by simp
    show ?thesis
    proof (cases q)
      case Nil
      then show ?thesis by simp
    next
      case (Cons a q')
      with pre have a: "a = c" and q': "prefix q' (sub_from p repl 0 cs)" by simp_all
      from Cons Cons.prems(1) have "set q' \<inter> set repl = {}" by auto
      from Cons.IH [OF this q'] a Cons show ?thesis by simp
    qed
  qed
qed

lemma sublist_sub_from:
  assumes "p \<noteq> []" and "repl \<noteq> []" and "q \<noteq> []" and "set q \<inter> set repl = {}"
    and "sublist q (sub_from p repl 0 s)"
  shows "sublist q s \<and> (q = p \<longrightarrow> False)"
  using assms(5)
proof (induction "length s" arbitrary: s rule: less_induct)
  case less
  show ?case
  proof (cases s)
    case Nil
    with less.prems assms(1,3) show ?thesis by simp
  next
    case (Cons c cs)
    show ?thesis
    proof (cases "prefix p s")
      case True
      let ?t = "drop (length p) s"
      from less.prems sub_from_match [OF assms(1) True, of repl]
      have "sublist q (repl @ sub_from p repl 0 ?t)" by simp
      from sublist_across_replacement [OF this assms(3,2,4)]
      have sub: "sublist q (sub_from p repl 0 ?t)" .
      from assms(1) Cons have "length ?t < length s" by (cases p) simp_all
      from less.hyps [OF this sub] have "sublist q ?t" and "q = p \<longrightarrow> False" by simp_all
      moreover have "sublist ?t s" by simp
      ultimately show ?thesis by (blast intro: sublist_order.order_trans)
    next
      case False
      with Cons less.prems assms(1) have "sublist q (c # sub_from p repl 0 cs)" by simp
      then consider "prefix q (c # sub_from p repl 0 cs)" | "sublist q (sub_from p repl 0 cs)"
        by (auto simp: sublist_Cons_right)
      then show ?thesis
      proof cases
        case 1
        with False Cons assms(1) have "prefix q (sub_from p repl 0 s)" by simp
        from prefix_sub_from [OF assms(1,2,4) this] have "prefix q s" .
        with False show ?thesis by auto
      next
        case 2
        from Cons have "length cs < length s" by simp
        from less.hyps [OF this 2] Cons show ?thesis by (simp add: sublist_Cons_right)
      qed
    qed
  qed
qed

lemma literal_re_clears:
  assumes "replacement \<noteq> []"
    and "\<forall>p\<in>set patterns. p \<noteq> [] \<and> set p \<inter> set replacement = {}"
  shows "\<forall>p\<in>set patterns. \<forall>s. \<not> re_search literal_re p (re_sub literal_re p replacement s)"
    and "\<forall>p\<in>set patterns. \<forall>q\<in>set patterns. \<forall>s.
           \<not> re_search literal_re q s \<longrightarrow> \<not> re_search literal_re q (re_sub literal_re p replacement s)"
proof -
  show "\<forall>p\<in>set patterns. \<forall>s. \<not> re_search literal_re p (re_sub literal_re p replacement s)"
  proof (intro ballI allI notI)
    fix p s
    assume p: "p \<in> set patterns"
      and "re_search literal_re p (re_sub literal_re p replacement s)"
    then have sub: "sublist p (sub_from p replacement 0 s)"
      by (simp add: literal_re_def contains_sublist)
    from p assms(2) have "p \<noteq> []" "set p \<inter> set replacement = {}" by auto
    from sublist_sub_from [OF this(1) assms(1) this(1) this(2) sub] show False by simp
  qed
  show "\<forall>p\<in>set patterns. \<forall>q\<in>set patterns. \<forall>s.
          \<not> re_search literal_re q s \<longrightarrow> \<not> re_search literal_re q (re_sub literal_re p replacement s)"
  proof (intro ballI allI impI notI)
    fix p q s
    assume p: "p \<in> set patterns" and q: "q \<in> set patterns"
      and no: "\<not> re_search literal_re q s"
      and "re_search literal_re q (re_sub literal_re p replacement s)"
    then have sub: "sublist q (sub_from p replacement 0 s)"
      by (simp add: literal_re_def contains_sublist)
    from p q assms(2) have "p \<noteq> []" "q \<noteq> []" "set q \<inter> set replacement = {}" by auto
    from sublist_sub_from [OF this(1) assms(1) this(2) this(3) sub] have "sublist q s" by simp
    with no show False by (simp add: literal_re_def contains_sublist)
  qed
qed

text \<open>
  C6, amended. Let the patterns compile, the paths be distinct, and let replacing the
  matches of a pattern leave no match of that pattern and create no match of another
  one. Then the first run returns a count and a tree \<open>fs1\<close>, and the second run, on
  \<open>fs1\<close>, modifies nothing: its count is 0, the files are unchanged and no commit is
  created.
\<close>

theorem scrub_idempotent_when_replacement_clean:
  assumes "valid_patterns re patterns replacement"
    and "distinct (map fst fs)"
    and "\<forall>p\<in>set patterns. \<forall>s. \<not> re_search re p (re_sub re p replacement s)"
    and "\<forall>p\<in>set patterns. \<forall>q\<in>set patterns. \<forall>s.
           \<not> re_search re q s \<longrightarrow> \<not> re_search re q (re_sub re p replacement s)"
  shows "\<exists>n fs1. update_all_files re patterns replacement fs = (Inr n, fs1)
           \<and> update_all_files re patterns replacement fs1 = (Inr 0, fs1)
           \<and> clean_sensitive_data re git_commit patterns replacement (r\<lparr>worktree := fs1\<rparr>)
               = (Inr True, r\<lparr>worktree := fs1\<rparr>)"
proof -
  from assms(2) have dist: "distinct (os_walk fs)" by (rule distinct_os_walk)
  from update_files_valid [OF assms(1) dist, of fs 0]
  obtain n fs1 where first: "update_all_files re patterns replacement fs = (Inr n, fs1)"
    and keys: "map fst fs1 = map fst fs"
    by (auto simp: update_all_files_def)
  from keys have walk: "os_walk fs1 = os_walk fs" by (rule os_walk_keys)
  have "\<forall>p\<in>set (os_walk fs1). \<not> file_matches re patterns fs1 p"
  proof
    fix p assume "p \<in> set (os_walk fs1)"
    with walk have "p \<in> set (os_walk fs)" by simp
    from update_files_clears [OF assms(1,3,4) dist this, of fs 0] first
    show "\<not> file_matches re patterns fs1 p" by (simp add: update_all_files_def)
  qed
  from update_files_no_match [OF assms(1) this, of 0]
  have again: "update_all_files re patterns replacement fs1 = (Inr 0, fs1)"
    by (simp add: update_all_files_def)
  then have "clean_sensitive_data re git_commit patterns replacement (r\<lparr>worktree := fs1\<rparr>)
               = (Inr True, r\<lparr>worktree := fs1\<rparr>)"
    by (simp add: clean_sensitive_data_def)
  with first again show ?thesis by blast
qed

theorem scrub_idempotent_when_replacement_clean_witness:
  "valid_patterns literal_re [''copyright'', ''author''] ''[REDACTED]''
   \<and> distinct (map fst notice_tree)
   \<and> update_all_files literal_re [''copyright'', ''author''] ''[REDACTED]'' notice_tree
       = (Inr 1, redacted_tree)
   \<and> update_all_files literal_re [''copyright'', ''author''] ''[REDACTED]'' redacted_tree
       = (Inr 0, redacted_tree)
   \<and> clean_sensitive_data literal_re commit_as_jane [''copyright'', ''author''] ''[REDACTED]''
        (two_commits\<lparr>worktree := redacted_tree\<rparr>) = (Inr True, two_commits\<lparr>worktree := redacted_tree\<rparr>)"
proof -
  let ?ps = "[''copyright'', ''author'']"
  have first: "fst (update_all_files literal_re ?ps ''[REDACTED]'' notice_tree) = Inr 1"
    by code_simp
  then have run: "update_all_files literal_re ?ps ''[REDACTED]'' notice_tree = (Inr 1, redacted_tree)"
    by (simp add: redacted_tree_def prod_eq_iff)
  have clean: "''[REDACTED]'' \<noteq> []"
    "\<forall>p\<in>set ?ps. p \<noteq> [] \<and> set p \<inter> set ''[REDACTED]'' = {}"
    by simp_all
  from scrub_idempotent_when_replacement_clean [OF literal_re_valid notice_tree_distinct
      literal_re_clears [OF clean], of commit_as_jane two_commits] run
  show ?thesis
    by (auto simp: literal_re_valid notice_tree_distinct)
qed

subsection \<open>Batch orchestrator\<close>

lemma on_repo_frame:
  "\<exists>res w'. \<forall>b. on_repo f (b\<lparr>working_copy := w\<rparr>) = (res, b\<lparr>working_copy := w'\<rparr>)"
proof (cases w)
  case None
  then show ?thesis by (auto simp: on_repo_def)
next
  case (Some r)
  obtain res r' where "f r = (res, r')" by (cases "f r")
  with Some show ?thesis by (auto simp: on_repo_def)
qed

lemma run_step_frame:
  "\<exists>out' done' w'. \<forall>b. run_step wanted name (on_repo f) (out, completed, b\<lparr>working_copy := w\<rparr>)
      = (out', done', b\<lparr>working_copy := w'\<rparr>)"
proof (cases out)
  case (Inl e)
  then show ?thesis by (auto simp: run_step_def)
next
  case (Inr u)
  show ?thesis
  proof (cases wanted)
    case False
    with Inr show ?thesis by (auto simp: run_step_def)
  next
    case True
    from on_repo_frame [of f w] obtain res w' where
      step: "\<forall>b. on_repo f (b\<lparr>working_copy := w\<rparr>) = (res, b\<lparr>working_copy := w'\<rparr>)"
      by blast
    show ?thesis
    proof (cases res)
      case (Inl e)
      with Inr True step show ?thesis by (auto simp: run_step_def)
    next
      case (Inr v)
      with \<open>out = Inr u\<close> True step show ?thesis by (auto simp: run_step_def)
    qed
  qed
qed

lemma initialize_frame:
  "initialize env url c =
     (case git_clone_from env url of
        Inl e \<Rightarrow> (Inl e, with_temp_dir c)
      | Inr r \<Rightarrow> (Inr True, (with_temp_dir c)\<lparr>working_copy := Some r\<rparr>))"
  by (simp add: initialize_def with_temp_dir_def Let_def split: sum.splits)

lemma item_body_frame:
  "\<exists>out completed g. \<forall>c. item_body env ops i url c =
      (out, completed, (with_temp_dir c)\<lparr>working_copy := g (working_copy c)\<rparr>)"
proof (cases "git_clone_from env url")
  case (Inl e)
  have "\<forall>c. item_body env ops i url c = (Inl e, [], (with_temp_dir c)\<lparr>working_copy := working_copy c\<rparr>)"
    by (simp add: item_body_def initialize_frame Inl run_step_def with_temp_dir_def)
  then show ?thesis
    by (intro exI [of _ "Inl e"] exI [of _ "[]"] exI [of _ "\<lambda>w. w"]) simp
next
  case (Inr r)
  let ?p0 = "\<lambda>c. (Inr () :: error + unit, [] :: string list, (with_temp_dir c)\<lparr>working_copy := Some r\<rparr>)"
  let ?s1 = "run_step (op_new_author ops \<noteq> [] \<and> op_new_email ops \<noteq> []) ''rewrite_history''
                (on_repo (rewrite_history env (op_new_author ops) (op_new_email ops)
                   (op_randomize_dates ops) (op_start_date ops) (op_end_date ops)))"
  let ?s2 = "run_step (op_branch_mapping ops \<noteq> []) ''rename_branches''
                (on_repo (rename_branches env (op_branch_mapping ops)))"
  let ?s3 = "run_step (op_patterns ops \<noteq> [] \<and> op_replacement ops \<noteq> []) ''clean_sensitive_data''
                (on_repo (clean_sensitive_data (regex env) (commit_tool env)
                   (op_patterns ops) (op_replacement ops)))"
  from run_step_frame obtain o1 d1 w1 where
    s1: "\<forall>b. ?s1 (Inr (), [], b\<lparr>working_copy := Some r\<rparr>) = (o1, d1, b\<lparr>working_copy := w1\<rparr>)"
    by blast
  from run_step_frame obtain o2 d2 w2 where
    s2: "\<forall>b. ?s2 (o1, d1, b\<lparr>working_copy := w1\<rparr>) = (o2, d2, b\<lparr>working_copy := w2\<rparr>)"
    by blast
  from run_step_frame obtain o3 d3 w3 where
    s3: "\<forall>b. ?s3 (o2, d2, b\<lparr>working_copy := w2\<rparr>) = (o3, d3, b\<lparr>working_copy := w3\<rparr>)"
    by blast
  have chain: "?s3 (?s2 (?s1 (?p0 c))) = (o3, d3, (with_temp_dir c)\<lparr>working_copy := w3\<rparr>)" for c
    using s1 s2 s3 by simp
  show ?thesis
  proof (cases o3)
    case (Inl e)
    have "\<forall>c. item_body env ops i url c = (Inl e, d3, (with_temp_dir c)\<lparr>working_copy := w3\<rparr>)"
      using chain Inl \<open>git_clone_from env url = Inr r\<close>
      by (simp add: item_body_def initialize_frame Let_def)
    then show ?thesis
      by (intro exI [of _ "Inl e"] exI [of _ d3] exI [of _ "\<lambda>w. w3"]) simp
  next
    case o3: (Inr u)
    show ?thesis
    proof (cases "if op_repo_name_template ops \<noteq> []
                    then str_format env (op_repo_name_template ops) (repo_name_of url) (i + 1)
                    else Inr []")
      case (Inl e)
      have "\<forall>c. item_body env ops i url c = (Inl e, d3, (with_temp_dir c)\<lparr>working_copy := w3\<rparr>)"
        using chain o3 Inl \<open>git_clone_from env url = Inr r\<close>
        by (simp add: item_body_def initialize_frame Let_def)
      then show ?thesis
      by (intro exI [of _ "Inl e"] exI [of _ d3] exI [of _ "\<lambda>w. w3"]) simp
    next
      case (Inr nm)
      let ?s4 = "run_step (op_remote_url ops \<noteq> [] \<or> (op_token ops \<noteq> [] \<and> nm \<noteq> []))
                    ''setup_remote_and_push''
                    (on_repo (setup_remote_and_push env (op_remote_url ops) (op_token ops) nm))"
      from run_step_frame obtain o4 d4 w4 where
        s4: "\<forall>b. ?s4 (Inr (), d3, b\<lparr>working_copy := w3\<rparr>) = (o4, d4, b\<lparr>working_copy := w4\<rparr>)"
        by blast
      have "\<forall>c. item_body env ops i url c = (o4, d4, (with_temp_dir c)\<lparr>working_copy := w4\<rparr>)"
        using chain o3 Inr s4 \<open>git_clone_from env url = Inr r\<close>
        by (simp add: item_body_def initialize_frame Let_def)
      then show ?thesis
      by (intro exI [of _ "o4"] exI [of _ d4] exI [of _ "\<lambda>w. w4"]) simp
    qed
  qed
qed

lemma cleanup_with_temp_dir:
  "cleanup env ((with_temp_dir c)\<lparr>working_copy := w\<rparr>) =
     (with_temp_dir c)\<lparr>working_copy := w, rmtree_calls := rmtree_calls c @ [next_tmp c],
        disk := (case rmtree_error env (next_tmp c) of
                   Some e \<Rightarrow> disk c @ [next_tmp c]
                 | None \<Rightarrow> removeAll (next_tmp c) (disk c) )\<rparr>"
  by (simp add: cleanup_def with_temp_dir_def Let_def split: option.splits)

lemma with_temp_dir_fields:
  "batch_results (with_temp_dir c) = batch_results c"
  "next_tmp (with_temp_dir c) = next_tmp c + 1"
  "rmtree_calls (with_temp_dir c) = rmtree_calls c"
  by (simp_all add: with_temp_dir_def)

lemma process_item_effect:
  "batch_results (process_item env ops i url c) = batch_results c @ [item_alone env ops (i, url)]
   \<and> rmtree_calls (process_item env ops i url c) = rmtree_calls c @ [next_tmp c]
   \<and> next_tmp (process_item env ops i url c) = next_tmp c + 1
   \<and> disk (process_item env ops i url c) =
       (case rmtree_error env (next_tmp c) of
          Some e \<Rightarrow> disk c @ [next_tmp c]
        | None \<Rightarrow> removeAll (next_tmp c) (disk c))"
proof -
  from item_body_frame [of env ops i url] obtain out completed g where
    body: "\<forall>c. item_body env ops i url c =
      (out, completed, (with_temp_dir c)\<lparr>working_copy := g (working_copy c)\<rparr>)"
    by blast
  have alone: "item_alone env ops (i, url) = result_of url out completed"
    by (simp add: item_alone_def body)
  show ?thesis
    by (simp add: process_item_def body alone cleanup_with_temp_dir Let_def with_temp_dir_fields)
qed

lemma process_items_effect:
  "batch_results (process_items env ops items c) = batch_results c @ map (item_alone env ops) items
   \<and> rmtree_calls (process_items env ops items c)
       = rmtree_calls c @ [next_tmp c ..< next_tmp c + length items]
   \<and> next_tmp (process_items env ops items c) = next_tmp c + length items"
proof (induction items arbitrary: c)
  case Nil
  then show ?case by simp
next
  case (Cons item items)
  obtain i url where item: "item = (i, url)" by (cases item)
  note step = process_item_effect [of env ops i url c]
  note rest = Cons.IH [of "process_item env ops i url c"]
  have "[next_tmp c ..< next_tmp c + Suc (length items)]
          = next_tmp c # [next_tmp c + 1 ..< next_tmp c + 1 + length items]"
    by (simp add: upt_rec)
  with step rest show ?case
    by (simp add: item)
qed

lemma process_items_disk:
  assumes "\<forall>t. rmtree_error env t = None" and "\<forall>t\<in>set (disk c). t < next_tmp c"
  shows "disk (process_items env ops items c) = disk c"
  using assms(2)
proof (induction items arbitrary: c)
  case Nil
  then show ?case by simp
next
  case (Cons item items)
  obtain i url where item: "item = (i, url)" by (cases item)
  from Cons.prems have fresh: "next_tmp c \<notin> set (disk c)" by auto
  from process_item_effect [of env ops i url c] assms(1) fresh
  have d: "disk (process_item env ops i url c) = disk c"
    and n: "next_tmp (process_item env ops i url c) = next_tmp c + 1"
    by simp_all
  from Cons.prems d n have "\<forall>t\<in>set (disk (process_item env ops i url c)). t < next_tmp (process_item env ops i url c)"
    by auto
  from Cons.IH [OF this] d show ?case by (simp add: item)
qed

lemma repo_url_item_alone: "repo_url (item_alone env ops item) = snd item"
  by (simp add: item_alone_def result_of_def split: prod.splits sum.splits)

lemma success_item_alone: "success (item_alone env ops item) \<longleftrightarrow> failure (item_alone env ops item) = None"
  by (simp add: item_alone_def result_of_def split: prod.splits sum.splits)

text \<open>
  C4. For every worklist, environment and operations, \<open>process_batch\<close> returns one result
  per submitted item, in order and under the item's locator, each equal to the result of
  that item processed alone on a new controller, whatever happens in the other items; and
  the cleanup removes the temporary directory of every item: \<open>shutil.rmtree\<close> is called
  once for each, whether the item succeeded or failed.
\<close>

theorem process_batch_isolates_items:
  "fst (process_batch env ops repo_urls c) = map (item_alone env ops) (enumerate 0 repo_urls)
   \<and> map repo_url (fst (process_batch env ops repo_urls c)) = repo_urls
   \<and> length (fst (process_batch env ops repo_urls c)) = length repo_urls
   \<and> rmtree_calls (snd (process_batch env ops repo_urls c))
       = rmtree_calls c @ [next_tmp c ..< next_tmp c + length repo_urls]"
proof -
  let ?c = "c\<lparr>batch_mode := True, batch_results := []\<rparr>"
  note eff = process_items_effect [of env ops "enumerate 0 repo_urls" ?c]
  have res: "fst (process_batch env ops repo_urls c) = map (item_alone env ops) (enumerate 0 repo_urls)"
    using eff by (simp add: process_batch_def Let_def)
  have "repo_url \<circ> item_alone env ops = snd"
    by (simp add: fun_eq_iff repo_url_item_alone)
  then have urls: "map repo_url (fst (process_batch env ops repo_urls c)) = repo_urls"
    by (simp add: res)
  have calls: "rmtree_calls (snd (process_batch env ops repo_urls c))
       = rmtree_calls c @ [next_tmp c ..< next_tmp c + length repo_urls]"
    using eff by (simp add: process_batch_def Let_def)
  from res urls calls show ?thesis by simp
qed

lemma process_batch_leaves_no_working_copy:
  assumes "\<forall>t. rmtree_error env t = None" and "\<forall>t\<in>set (disk c). t < next_tmp c"
  shows "disk (snd (process_batch env ops repo_urls c)) = disk c"
  using process_items_disk [OF assms(1), of "c\<lparr>batch_mode := True, batch_results := []\<rparr>" ops "enumerate 0 repo_urls"] assms(2)
  by (simp add: process_batch_def Let_def)

lemma three_urls_run:
  "fst (process_batch three_hosts scrub_and_sign three_urls new_controller) =
     [\<lparr>repo_url = ''https://host/one.git'', success = True, failure = None,
        operations_completed = [''rewrite_history'', ''rename_branches'', ''clean_sensitive_data'', ''setup_remote_and_push'']\<rparr>,
      \<lparr>repo_url = ''https://host/gone.git'', success = False,
        failure = Some (GitCommandError ''repository not found''), operations_completed = []\<rparr>,
      \<lparr>repo_url = ''https://host/three'', success = True, failure = None,
        operations_completed = [''rewrite_history'', ''rename_branches'', ''clean_sensitive_data'', ''setup_remote_and_push'']\<rparr>]"
  by code_simp

theorem process_batch_isolates_items_witness:
  "map success (fst (process_batch three_hosts scrub_and_sign three_urls new_controller)) = [True, False, True]
   \<and> map repo_url (fst (process_batch three_hosts scrub_and_sign three_urls new_controller)) = three_urls
   \<and> rmtree_calls (snd (process_batch three_hosts scrub_and_sign three_urls new_controller)) = [0, 1, 2]"
proof -
  note spec = process_batch_isolates_items [of three_hosts scrub_and_sign three_urls new_controller]
  have "[next_tmp new_controller ..< next_tmp new_controller + length three_urls] = [0, 1, 2]"
    by (simp add: new_controller_def three_urls_def upt_rec)
  moreover have "rmtree_calls new_controller = []"
    by (simp add: new_controller_def)
  ultimately have calls:
    "rmtree_calls (snd (process_batch three_hosts scrub_and_sign three_urls new_controller)) = [0, 1, 2]"
    using spec by simp
  show ?thesis
    unfolding three_urls_run using calls by (simp add: three_urls_def)
qed

end
